theory Spec2Isabelle
  imports Main "HOL-Library.Word"
begin

section \<open>Pages as byte buffers\<close>

text \<open>
  A page is the 4096-byte buffer that the paged-file layer hands out (\<^verbatim>\<open>char *pageBuf\<close>).
  The record layer casts that buffer to its header and slot structures (the macros
  \<^verbatim>\<open>GET_HEADER\<close>, \<^verbatim>\<open>GET_SLOTS\<close>, \<^verbatim>\<open>GET_SLOT\<close>, \<^verbatim>\<open>GET_RECORD\<close> of rhf.h), so the header,
  the slot array and the record bytes all live in the same bytes.  The model keeps the
  page as bytes indexed by their offset; only offsets \<open>0 .. 4095\<close> belong to the buffer, and
  every access of the model outside of them is the outcome \<open>Fault\<close> (undefined behaviour
  in C).  An \<^verbatim>\<open>int\<close> is four bytes, little-endian, two's complement.
\<close>

type_synonym byte = "8 word"
type_synonym page = "nat \<Rightarrow> byte"

abbreviation (input) PF_PAGE_SIZE :: int where "PF_PAGE_SIZE \<equiv> 4096"
abbreviation (input) INT_MAX :: int where "INT_MAX \<equiv> 2147483647"

text \<open>\<^verbatim>\<open>sizeof(RHF_PageHeader)\<close> (three ints) and \<^verbatim>\<open>sizeof(RHF_Slot)\<close> (two ints).\<close>

abbreviation (input) sizeof_RHF_PageHeader :: int where "sizeof_RHF_PageHeader \<equiv> 12"
abbreviation (input) sizeof_RHF_Slot :: int where "sizeof_RHF_Slot \<equiv> 8"

text \<open>Conversion of a mathematical integer to the 32-bit \<^verbatim>\<open>int\<close> with the same low 32 bits.\<close>

definition to_int32 :: "int \<Rightarrow> int" where
  "to_int32 x = (x + 2147483648) mod 4294967296 - 2147483648"

definition rd32 :: "page \<Rightarrow> nat \<Rightarrow> int" where
  "rd32 pg off = to_int32 (uint (pg off) + 256 * uint (pg (off + 1))
       + 65536 * uint (pg (off + 2)) + 16777216 * uint (pg (off + 3)))"

definition wr32 :: "page \<Rightarrow> nat \<Rightarrow> int \<Rightarrow> page" where
  "wr32 pg off v = pg(off := word_of_int v, off + 1 := word_of_int (v div 256),
       off + 2 := word_of_int (v div 65536), off + 3 := word_of_int (v div 16777216))"

text \<open>The fields of \<^verbatim>\<open>RHF_PageHeader\<close> at offset 0 of the page.\<close>

definition numSlots :: "page \<Rightarrow> int" where
  "numSlots pg = rd32 pg 0"

definition freeSpacePtr :: "page \<Rightarrow> int" where
  "freeSpacePtr pg = rd32 pg 4"

definition nextFreeSlot :: "page \<Rightarrow> int" where
  "nextFreeSlot pg = rd32 pg 8"

text \<open>
  \<^verbatim>\<open>GET_SLOT(page, slotNum)\<close>: the slot array starts right after the header.  The slot
  lies inside the page buffer only for slot numbers \<open>0 .. 509\<close>.
\<close>

definition slot_in_page :: "int \<Rightarrow> bool" where
  "slot_in_page sn \<longleftrightarrow> 0 \<le> sn \<and> sizeof_RHF_PageHeader + sizeof_RHF_Slot * sn + sizeof_RHF_Slot \<le> PF_PAGE_SIZE"

definition GET_SLOT :: "int \<Rightarrow> nat" where
  "GET_SLOT sn = nat (sizeof_RHF_PageHeader + sizeof_RHF_Slot * sn)"

definition recordOffset :: "page \<Rightarrow> int \<Rightarrow> int" where
  "recordOffset pg sn = rd32 pg (GET_SLOT sn)"

definition recordLength :: "page \<Rightarrow> int \<Rightarrow> int" where
  "recordLength pg sn = rd32 pg (GET_SLOT sn + 4)"

text \<open>
  \<^verbatim>\<open>memcpy\<close> of \<open>n\<close> bytes between a page and the caller's memory.  The byte range
  \<open>off .. off + n - 1\<close> of the page must lie in the buffer; a negative \<open>n\<close> is, after its
  conversion to \<^verbatim>\<open>size_t\<close>, larger than any buffer.
\<close>

definition in_page :: "int \<Rightarrow> int \<Rightarrow> bool" where
  "in_page off n \<longleftrightarrow> 0 \<le> n \<and> 0 \<le> off \<and> off + n \<le> PF_PAGE_SIZE"

definition memcpy_to_page :: "page \<Rightarrow> nat \<Rightarrow> byte list \<Rightarrow> nat \<Rightarrow> page" where
  "memcpy_to_page pg off src n = (\<lambda>i. if off \<le> i \<and> i < off + n then src ! (i - off) else pg i)"

definition memcpy_from_page :: "(nat \<Rightarrow> byte) \<Rightarrow> page \<Rightarrow> nat \<Rightarrow> nat \<Rightarrow> (nat \<Rightarrow> byte)" where
  "memcpy_from_page dst pg off n = (\<lambda>i. if i < n then pg (off + i) else dst i)"

text \<open>The bytes \<open>off .. off + n - 1\<close> of a page or of the caller's buffer, as a list.\<close>

definition bytes_at :: "(nat \<Rightarrow> byte) \<Rightarrow> nat \<Rightarrow> nat \<Rightarrow> byte list" where
  "bytes_at m off n = map (\<lambda>i. m (off + i)) [0..<n]"

section \<open>Error codes (pf.h, rhf.h)\<close>

abbreviation (input) PFE_OK :: int where "PFE_OK \<equiv> 0"
abbreviation (input) PFE_NOBUF :: int where "PFE_NOBUF \<equiv> - 2"
abbreviation (input) PFE_PAGENOTINBUF :: int where "PFE_PAGENOTINBUF \<equiv> - 4"
abbreviation (input) PFE_INVALIDPAGE :: int where "PFE_INVALIDPAGE \<equiv> - 10"
abbreviation (input) PFE_FD :: int where "PFE_FD \<equiv> - 13"
abbreviation (input) PFE_EOF :: int where "PFE_EOF \<equiv> - 14"
abbreviation (input) PFE_PAGEUNFIXED :: int where "PFE_PAGEUNFIXED \<equiv> - 16"

abbreviation (input) RHF_OK :: int where "RHF_OK \<equiv> 0"
abbreviation (input) RHF_EOF :: int where "RHF_EOF \<equiv> - 20"
abbreviation (input) RHF_INVALIDRID :: int where "RHF_INVALIDRID \<equiv> - 22"
abbreviation (input) RHF_NORECORD :: int where "RHF_NORECORD \<equiv> - 23"

section \<open>The paged-file layer as the record layer sees it\<close>

text \<open>
  Modelled from the spec: the functions \<^verbatim>\<open>PF_GetThisPage\<close>, \<^verbatim>\<open>PF_GetNextPage\<close>,
  \<^verbatim>\<open>PF_AllocPage\<close> and \<^verbatim>\<open>PF_UnfixPage\<close> are declared in pf.h, their code is not part of
  the sources.  The model follows the spec's description of fix, alloc and unfix
  (section 4.G) for one open file:
  \<^item> \<open>pf_pages\<close>: the content of the pages \<open>0 .. num_pages - 1\<close> as a fixer sees it through
    the pointer a fix returns.  All fixers of a page share one buffer; the record layer
    never disposes a page, so no page is on the free list;
  \<^item> \<open>pf_pins\<close>: the pin count of each page (0 when the page is not fixed);
  \<^item> \<open>pf_dirty\<close>: the dirty flag, \<open>dirty |= dirty_hint\<close> on unfix, set by alloc;
  \<^item> \<open>pf_bufsize\<close>: the number of frames.  A fix of a page that is not fixed needs a frame
    that is empty or holds an unfixed page, and fails with \<open>no_buffer\<close> when every frame
    holds a fixed page;
  \<^item> \<open>pf_fd\<close>: the descriptor of the open file; any other descriptor is \<open>bad_fd\<close>.
  A failing operation leaves the state untouched.  The frame table, the replacement
  order, the statistics and disk errors are not modelled.  An unfix of a page
  that is not fixed reports \<open>page_unfixed\<close> (the model does not know whether the page is
  still resident), and \<open>page_not_in_buf\<close> for a page number outside of the file.
\<close>

record pf_state =
  pf_fd :: int
  pf_pages :: "page list"
  pf_pins :: "nat \<Rightarrow> nat"
  pf_dirty :: "nat \<Rightarrow> bool"
  pf_bufsize :: nat

text \<open>
  Modelled from the spec: the number of frames that hold a fixed page.  A frame holds
  one page and at most one frame holds a given page, so this is the number of pages with a
  pin count above 0.
\<close>

definition pinned_count :: "pf_state \<Rightarrow> nat" where
  "pinned_count st = length (filter (\<lambda>p. 0 < pf_pins st p) [0..<length (pf_pages st)])"

text \<open>
  Modelled from the spec: the flow that all fix operations share (section 4.G).  On a hit
  the pin count is incremented; on a miss a frame is needed, an empty one or a victim
  among the unfixed ones, and the fix fails with \<open>no_buffer\<close> when there is none; the
  page is then loaded with pin count 1.  A fixed page is resident, so the fix of a page
  fails exactly when that page is not fixed and every frame holds a fixed page.
\<close>

definition pf_fix :: "pf_state \<Rightarrow> nat \<Rightarrow> int + pf_state" where
  "pf_fix st p =
     (if pf_pins st p = 0 \<and> pf_bufsize st \<le> pinned_count st then Inl PFE_NOBUF
      else Inr (st\<lparr>pf_pins := (pf_pins st)(p := pf_pins st p + 1)\<rparr>))"

text \<open>
  Modelled from the spec: \<open>fix_this(fd, page_num)\<close>, with the errors \<open>bad_fd\<close>,
  \<open>invalid_page\<close> (page number outside of \<open>[0, num_pages)\<close>) and \<open>no_buffer\<close>.  The pointer
  it returns is the page \<open>get_page st page_num\<close> of the state it leaves.
\<close>

definition PF_GetThisPage :: "pf_state \<Rightarrow> int \<Rightarrow> int \<Rightarrow> int + pf_state" where
  "PF_GetThisPage st fd pagenum =
     (if fd \<noteq> pf_fd st then Inl PFE_FD
      else if pagenum < 0 \<or> int (length (pf_pages st)) \<le> pagenum then Inl PFE_INVALIDPAGE
      else pf_fix st (nat pagenum))"

text \<open>
  Modelled from the spec: \<open>fix_next(fd, page_num)\<close> fixes the smallest allocated page
  with a number strictly greater than the input and returns that number; at the end of
  the file it fails with \<open>eof\<close> and leaves the state untouched.
\<close>

definition PF_GetNextPage :: "pf_state \<Rightarrow> int \<Rightarrow> int \<Rightarrow> int + (int \<times> pf_state)" where
  "PF_GetNextPage st fd pagenum =
     (if fd \<noteq> pf_fd st then Inl PFE_FD
      else let q = max 0 (pagenum + 1) in
        if int (length (pf_pages st)) \<le> q then Inl PFE_EOF
        else (case pf_fix st (nat q) of Inl e \<Rightarrow> Inl e | Inr st' \<Rightarrow> Inr (q, st')))"

text \<open>
  Modelled from the spec: \<open>alloc(fd)\<close> with an empty free list bumps \<open>num_pages\<close> and
  creates a frame for the new page, whose data is zeroed; the page is dirty and its pin
  count is 1.
\<close>

definition PF_AllocPage :: "pf_state \<Rightarrow> int \<Rightarrow> int + (int \<times> pf_state)" where
  "PF_AllocPage st fd =
     (if fd \<noteq> pf_fd st then Inl PFE_FD
      else if pf_bufsize st \<le> pinned_count st then Inl PFE_NOBUF
      else let p = length (pf_pages st) in
        Inr (int p, st\<lparr>pf_pages := pf_pages st @ [\<lambda>_. 0],
                        pf_pins := (pf_pins st)(p := 1),
                        pf_dirty := (pf_dirty st)(p := True)\<rparr>))"

text \<open>
  Modelled from the spec: \<open>unfix(fd, page_num, dirty_hint)\<close> decrements the pin count and
  sets \<open>dirty |= dirty_hint\<close>; it fails with \<open>page_unfixed\<close> when the pin count is 0.
\<close>

definition PF_UnfixPage :: "pf_state \<Rightarrow> int \<Rightarrow> int \<Rightarrow> bool \<Rightarrow> int + pf_state" where
  "PF_UnfixPage st fd pagenum dirty =
     (if fd \<noteq> pf_fd st then Inl PFE_FD
      else if pagenum < 0 \<or> int (length (pf_pages st)) \<le> pagenum then Inl PFE_PAGENOTINBUF
      else if pf_pins st (nat pagenum) = 0 then Inl PFE_PAGEUNFIXED
      else Inr (st\<lparr>pf_pins := (pf_pins st)(nat pagenum := pf_pins st (nat pagenum) - 1),
                   pf_dirty := (pf_dirty st)(nat pagenum := pf_dirty st (nat pagenum) \<or> dirty)\<rparr>))"

text \<open>A call of \<^verbatim>\<open>PF_UnfixPage\<close> whose return value the caller drops.\<close>

definition unfix_ignored :: "pf_state \<Rightarrow> int \<Rightarrow> int \<Rightarrow> bool \<Rightarrow> pf_state" where
  "unfix_ignored st fd pagenum dirty =
     (case PF_UnfixPage st fd pagenum dirty of Inl e \<Rightarrow> st | Inr st' \<Rightarrow> st')"

text \<open>A write through the pointer a fix returned.\<close>

definition set_page :: "pf_state \<Rightarrow> int \<Rightarrow> page \<Rightarrow> pf_state" where
  "set_page st pagenum pg = st\<lparr>pf_pages := (pf_pages st)[nat pagenum := pg]\<rparr>"

definition get_page :: "pf_state \<Rightarrow> int \<Rightarrow> page" where
  "get_page st pagenum = pf_pages st ! nat pagenum"

section \<open>The record layer (rhf.c)\<close>

text \<open>
  A function of the record layer either returns (its return code, its output parameters
  and the state it leaves) or runs into undefined behaviour: an access outside of the page
  buffer, or a \<^verbatim>\<open>memcpy\<close> of a negative length.
\<close>

datatype 'a outcome = Returns 'a | Fault

record RID =
  pageNum :: int
  slotNum :: int

definition rhf_InitPage :: "page \<Rightarrow> page" where
  "rhf_InitPage pg = wr32 (wr32 (wr32 pg 0 0) 4 PF_PAGE_SIZE) 8 (- 1)"

text \<open>Lines 38 to 41 of rhf.c: the test of the page scan of \<^verbatim>\<open>rhf_GetPageWithSpace\<close>.\<close>

definition spaceNeededForSlot :: "page \<Rightarrow> int" where
  "spaceNeededForSlot pg = (if nextFreeSlot pg = - 1 then sizeof_RHF_Slot else 0)"

definition freeSpace :: "page \<Rightarrow> int" where
  "freeSpace pg = to_int32 (freeSpacePtr pg - (sizeof_RHF_PageHeader + numSlots pg * sizeof_RHF_Slot))"

definition page_has_space :: "page \<Rightarrow> int \<Rightarrow> bool" where
  "page_has_space pg len \<longleftrightarrow> len + spaceNeededForSlot pg \<le> freeSpace pg"

text \<open>
  The \<^verbatim>\<open>while\<close> loop of \<^verbatim>\<open>rhf_GetPageWithSpace\<close>, from page number \<open>pnum\<close> on, and what
  follows the loop.  \<open>Inl (error, state)\<close> is an error return, \<open>Inr (pageNum, state)\<close> the
  return of \<^verbatim>\<open>RHF_OK\<close> with the page \<open>pageNum\<close> fixed.  The sum
  \<^verbatim>\<open>length + spaceNeededForSlot\<close> is an \<^verbatim>\<open>int\<close> addition, which must not overflow.  The
  error that \<^verbatim>\<open>return PFerrno\<close> reports is the code of the failed \<^verbatim>\<open>PF_UnfixPage\<close>.
\<close>

function rhf_GetPageWithSpace_from ::
  "pf_state \<Rightarrow> int \<Rightarrow> int \<Rightarrow> int \<Rightarrow> ((int \<times> pf_state) + (int \<times> pf_state)) outcome" where
  "rhf_GetPageWithSpace_from st fd len pnum =
     (case PF_GetNextPage st fd pnum of
        Inl error \<Rightarrow>
          (if error \<noteq> PFE_EOF then Returns (Inl (error, st))
           else (case PF_AllocPage st fd of
                   Inl error' \<Rightarrow> Returns (Inl (error', st))
                 | Inr (pageNum', st1) \<Rightarrow>
                     Returns (Inr (pageNum', set_page st1 pageNum' (rhf_InitPage (get_page st1 pageNum'))))))
      | Inr (pnum', st1) \<Rightarrow>
          (let buf = get_page st1 pnum' in
           if INT_MAX < len + spaceNeededForSlot buf then Fault
           else if page_has_space buf len then Returns (Inr (pnum', st1))
           else (case PF_UnfixPage st1 fd pnum' False of
                   Inl error' \<Rightarrow> Returns (Inl (error', st1))
                 | Inr st2 \<Rightarrow> rhf_GetPageWithSpace_from st2 fd len pnum')))"
  by pat_completeness auto
termination
proof (relation "measure (\<lambda>(st, fd, len, pnum). nat (int (length (pf_pages st)) - max 0 (pnum + 1)))")
  show "wf (measure (\<lambda>(st, fd, len, pnum). nat (int (length (pf_pages st)) - max 0 (pnum + 1))))"
    by simp
next
  fix st :: pf_state and fd len pnum :: int and x pnum' st1 buf st2
  assume nx: "PF_GetNextPage st fd pnum = Inr x" and x: "(pnum', st1) = x"
    and un: "PF_UnfixPage st1 fd pnum' False = Inr st2"
  from nx x have a: "max 0 (pnum + 1) \<le> pnum'" "pnum' < int (length (pf_pages st))"
    "length (pf_pages st1) = length (pf_pages st)"
    by (auto simp: PF_GetNextPage_def pf_fix_def Let_def split: if_splits sum.splits)
  from un have b: "length (pf_pages st2) = length (pf_pages st1)"
    by (auto simp: PF_UnfixPage_def split: if_splits)
  from a b show "((st2, fd, len, pnum'), st, fd, len, pnum)
       \<in> measure (\<lambda>(st, fd, len, pnum). nat (int (length (pf_pages st)) - max 0 (pnum + 1)))"
    by auto
qed

definition rhf_GetPageWithSpace ::
  "pf_state \<Rightarrow> int \<Rightarrow> int \<Rightarrow> ((int \<times> pf_state) + (int \<times> pf_state)) outcome" where
  "rhf_GetPageWithSpace st fd len = rhf_GetPageWithSpace_from st fd len (- 1)"

text \<open>
  Steps 3 to 5 of \<^verbatim>\<open>RHF_InsertRecord\<close>, on the fixed page \<open>pg\<close> in which the slot
  \<open>sn\<close> has been chosen: the record is written at \<open>freeSpacePtr - length\<close>.  The caller's
  record is the byte list \<open>recordData\<close>, of which \<^verbatim>\<open>memcpy\<close> reads \<open>len\<close> bytes.
\<close>

definition insert_write ::
  "pf_state \<Rightarrow> int \<Rightarrow> byte list \<Rightarrow> int \<Rightarrow> int \<Rightarrow> int \<Rightarrow> page \<Rightarrow> (int \<times> RID \<times> pf_state) outcome" where
  "insert_write st fd recordData len pageNum' sn pg =
     (let pg1 = wr32 pg 4 (freeSpacePtr pg - len);
          pg2 = wr32 pg1 (GET_SLOT sn) (freeSpacePtr pg1);
          pg3 = wr32 pg2 (GET_SLOT sn + 4) len
      in if in_page (recordOffset pg3 sn) len \<and> len \<le> int (length recordData) then
           (let pg4 = memcpy_to_page pg3 (nat (recordOffset pg3 sn)) recordData (nat len);
                st' = set_page st pageNum' pg4;
                rid' = \<lparr>pageNum = pageNum', slotNum = sn\<rparr>
            in (case PF_UnfixPage st' fd pageNum' True of
                  Inl error \<Rightarrow> Returns (error, rid', st')
                | Inr st'' \<Rightarrow> Returns (PFE_OK, rid', st'')))
         else Fault)"

definition RHF_InsertRecord ::
  "pf_state \<Rightarrow> int \<Rightarrow> byte list \<Rightarrow> int \<Rightarrow> RID \<Rightarrow> (int \<times> RID \<times> pf_state) outcome" where
  "RHF_InsertRecord st fd recordData len rid =
     (case rhf_GetPageWithSpace st fd len of
        Fault \<Rightarrow> Fault
      | Returns (Inl (error, st1)) \<Rightarrow> Returns (error, rid, st1)
      | Returns (Inr (pageNum', st1)) \<Rightarrow>
          (let pageBuf = get_page st1 pageNum' in
           if nextFreeSlot pageBuf \<noteq> - 1 then
             (let sn = nextFreeSlot pageBuf in
              if slot_in_page sn then
                insert_write st1 fd recordData len pageNum' sn
                  (wr32 pageBuf 8 (recordOffset pageBuf sn))
              else Fault)
           else
             (let sn = numSlots pageBuf in
              if slot_in_page sn then
                insert_write st1 fd recordData len pageNum' sn
                  (wr32 pageBuf 0 (numSlots pageBuf + 1))
              else Fault)))"

definition RHF_GetRecord ::
  "pf_state \<Rightarrow> int \<Rightarrow> RID \<Rightarrow> (nat \<Rightarrow> byte) \<Rightarrow> int
     \<Rightarrow> (int \<times> (nat \<Rightarrow> byte) \<times> int \<times> pf_state) outcome" where
  "RHF_GetRecord st fd rid recordBuf len =
     (case PF_GetThisPage st fd (pageNum rid) of
        Inl error \<Rightarrow> Returns (error, recordBuf, len, st)
      | Inr st1 \<Rightarrow>
          (let pageBuf = get_page st1 (pageNum rid) in
           if slotNum rid < 0 \<or> numSlots pageBuf \<le> slotNum rid then
             Returns (RHF_INVALIDRID, recordBuf, len, unfix_ignored st1 fd (pageNum rid) False)
           else if \<not> slot_in_page (slotNum rid) then Fault
           else if recordOffset pageBuf (slotNum rid) = - 1 then
             Returns (RHF_NORECORD, recordBuf, len, unfix_ignored st1 fd (pageNum rid) False)
           else
             (let len' = recordLength pageBuf (slotNum rid) in
              if in_page (recordOffset pageBuf (slotNum rid)) len' then
                (let recordBuf' = memcpy_from_page recordBuf pageBuf
                                    (nat (recordOffset pageBuf (slotNum rid))) (nat len')
                 in (case PF_UnfixPage st1 fd (pageNum rid) False of
                       Inl error \<Rightarrow> Returns (error, recordBuf', len', st1)
                     | Inr st2 \<Rightarrow> Returns (PFE_OK, recordBuf', len', st2)))
              else Fault)))"

definition RHF_DeleteRecord :: "pf_state \<Rightarrow> int \<Rightarrow> RID \<Rightarrow> (int \<times> pf_state) outcome" where
  "RHF_DeleteRecord st fd rid =
     (case PF_GetThisPage st fd (pageNum rid) of
        Inl error \<Rightarrow> Returns (error, st)
      | Inr st1 \<Rightarrow>
          (let pageBuf = get_page st1 (pageNum rid) in
           if slotNum rid < 0 \<or> numSlots pageBuf \<le> slotNum rid then
             Returns (RHF_INVALIDRID, unfix_ignored st1 fd (pageNum rid) False)
           else if \<not> slot_in_page (slotNum rid) then Fault
           else if recordOffset pageBuf (slotNum rid) = - 1 then
             Returns (RHF_NORECORD, unfix_ignored st1 fd (pageNum rid) False)
           else
             (let pg1 = wr32 pageBuf (GET_SLOT (slotNum rid)) (nextFreeSlot pageBuf);
                  pg2 = wr32 pg1 (GET_SLOT (slotNum rid) + 4) (- 1);
                  pg3 = wr32 pg2 8 (slotNum rid);
                  st2 = set_page st1 (pageNum rid) pg3
              in (case PF_UnfixPage st2 fd (pageNum rid) True of
                    Inl error \<Rightarrow> Returns (error, st2)
                  | Inr st3 \<Rightarrow> Returns (PFE_OK, st3)))))"

text \<open>
  A scan.  \<open>pageBuf\<close> is the pointer to the fixed page: \<open>None\<close> is \<^verbatim>\<open>NULL\<close>, \<open>Some p\<close>
  the buffer that the fix of page \<open>p\<close> returned.  The pointer is good as long as the page
  is in the file and still fixed; a read through it otherwise is a \<open>Fault\<close>.
\<close>

record RHF_Scan =
  scan_fd :: int
  currentPage :: int
  currentSlot :: int
  pageBuf :: "int option"
  page_is_fixed :: int

definition RHF_StartScan :: "int \<Rightarrow> RHF_Scan \<Rightarrow> int \<times> RHF_Scan" where
  "RHF_StartScan fd scan =
     (RHF_OK, scan\<lparr>scan_fd := fd, currentPage := - 1, currentSlot := - 1,
                    pageBuf := None, page_is_fixed := 0\<rparr>)"

definition RHF_EndScan :: "pf_state \<Rightarrow> RHF_Scan \<Rightarrow> int \<times> RHF_Scan \<times> pf_state" where
  "RHF_EndScan st scan =
     (if page_is_fixed scan \<noteq> 0 then
        (case PF_UnfixPage st (scan_fd scan) (currentPage scan) False of
           Inl error \<Rightarrow> (error, scan, st)
         | Inr st' \<Rightarrow> (RHF_OK, scan\<lparr>scan_fd := - 1, pageBuf := None, page_is_fixed := 0\<rparr>, st'))
      else (RHF_OK, scan\<lparr>scan_fd := - 1, pageBuf := None, page_is_fixed := 0\<rparr>, st))"

text \<open>Step 1 of the loop of \<^verbatim>\<open>RHF_GetNextRecord\<close>: get a page if the scan has none.\<close>

definition scan_get_page :: "pf_state \<Rightarrow> RHF_Scan \<Rightarrow> int + (pf_state \<times> RHF_Scan)" where
  "scan_get_page st scan =
     (if page_is_fixed scan = 0 then
        (case PF_GetNextPage st (scan_fd scan) (currentPage scan) of
           Inl error \<Rightarrow> Inl (if error = PFE_EOF then RHF_EOF else error)
         | Inr (p, st1) \<Rightarrow>
             Inr (st1, scan\<lparr>currentPage := p, pageBuf := Some p, page_is_fixed := 1,
                             currentSlot := 0\<rparr>))
      else Inr (st, scan))"

definition buf_valid :: "pf_state \<Rightarrow> int \<Rightarrow> bool" where
  "buf_valid st p \<longleftrightarrow> 0 \<le> p \<and> p < int (length (pf_pages st)) \<and> 0 < pf_pins st (nat p)"

function RHF_GetNextRecord ::
  "pf_state \<Rightarrow> RHF_Scan \<Rightarrow> (nat \<Rightarrow> byte) \<Rightarrow> int \<Rightarrow> RID
     \<Rightarrow> (int \<times> RHF_Scan \<times> (nat \<Rightarrow> byte) \<times> int \<times> RID \<times> pf_state) outcome" where
  "RHF_GetNextRecord st scan recordBuf len rid =
     (case scan_get_page st scan of
        Inl error \<Rightarrow> Returns (error, scan, recordBuf, len, rid, st)
      | Inr (st1, scan1) \<Rightarrow>
          (case pageBuf scan1 of
             None \<Rightarrow> Fault
           | Some b \<Rightarrow>
               if buf_valid st1 b then
                 (let pg = get_page st1 b in
                  if numSlots pg \<le> currentSlot scan1 then
                    (case PF_UnfixPage st1 (scan_fd scan1) (currentPage scan1) False of
                       Inl error \<Rightarrow> Returns (error, scan1, recordBuf, len, rid, st1)
                     | Inr st2 \<Rightarrow>
                         RHF_GetNextRecord st2 (scan1\<lparr>page_is_fixed := 0\<rparr>) recordBuf len rid)
                  else if slot_in_page (currentSlot scan1) then
                    (let sn = currentSlot scan1;
                         scan2 = scan1\<lparr>currentSlot := sn + 1\<rparr>
                     in if recordLength pg sn \<noteq> - 1 then
                          (if in_page (recordOffset pg sn) (recordLength pg sn) then
                             Returns (RHF_OK, scan2,
                               memcpy_from_page recordBuf pg (nat (recordOffset pg sn))
                                 (nat (recordLength pg sn)),
                               recordLength pg sn,
                               \<lparr>pageNum = currentPage scan2, slotNum = currentSlot scan2 - 1\<rparr>,
                               st1)
                           else Fault)
                        else RHF_GetNextRecord st1 scan2 recordBuf len rid)
                  else Fault)
               else Fault))"
  by pat_completeness auto

definition pages_after :: "pf_state \<Rightarrow> int \<Rightarrow> nat" where
  "pages_after st pagenum = nat (int (length (pf_pages st)) - max 0 (pagenum + 1))"

definition slots_left :: "pf_state \<Rightarrow> RHF_Scan \<Rightarrow> nat" where
  "slots_left st scan =
     (case pageBuf scan of None \<Rightarrow> 0
      | Some b \<Rightarrow> nat (numSlots (get_page st b) - currentSlot scan))"

lemma PF_UnfixPage_pages:
  "PF_UnfixPage st fd p d = Inr st' \<Longrightarrow> pf_pages st' = pf_pages st"
  by (auto simp: PF_UnfixPage_def split: if_splits)

lemma scan_get_page_unfixed:
  assumes "scan_get_page st scan = Inr (st1, scan1)" and "page_is_fixed scan = 0"
  shows "pages_after st1 (currentPage scan1) < pages_after st (currentPage scan)"
  using assms
  by (auto simp: scan_get_page_def PF_GetNextPage_def pf_fix_def pages_after_def Let_def
           split: if_splits sum.splits)

lemma scan_get_page_fixed:
  assumes "scan_get_page st scan = Inr (st1, scan1)" and "page_is_fixed scan \<noteq> 0"
  shows "st1 = st \<and> scan1 = scan"
  using assms by (auto simp: scan_get_page_def)

termination RHF_GetNextRecord
proof (relation "measures [\<lambda>(st, scan, recordBuf, len, rid). pages_after st (currentPage scan),
                           \<lambda>(st, scan, recordBuf, len, rid). if page_is_fixed scan = 0 then 0 else 1,
                           \<lambda>(st, scan, recordBuf, len, rid). slots_left st scan]", goal_cases)
  case 1
  show ?case by simp
next
  case (2 st scan recordBuf len rid x st1 scan1 b pg st2)
  then have g: "scan_get_page st scan = Inr (st1, scan1)"
    and u: "pf_pages st2 = pf_pages st1"
    by (auto dest: PF_UnfixPage_pages)
  show ?case
  proof (cases "page_is_fixed scan = 0")
    case True
    from scan_get_page_unfixed[OF g True] u show ?thesis
      by (simp add: pages_after_def)
  next
    case False
    from scan_get_page_fixed[OF g False] u False show ?thesis
      by (simp add: pages_after_def)
  qed
next
  case (3 st scan recordBuf len rid x st1 scan1 b pg sn scan2)
  then have g: "scan_get_page st scan = Inr (st1, scan1)" by auto
  show ?case
  proof (cases "page_is_fixed scan = 0")
    case True
    from scan_get_page_unfixed[OF g True] 3 show ?thesis
      by (simp add: pages_after_def)
  next
    case False
    from scan_get_page_fixed[OF g False] 3 False show ?thesis
      by (simp add: pages_after_def slots_left_def)
  qed
qed

section \<open>Driving the record layer\<close>

text \<open>
  A file that has just been created and opened (descriptor 0, no page, nothing fixed),
  with the default pool of 40 frames, and a driver that runs a list of inserts and
  deletes on it as testrhf.c does, keeping each call's return code and RID.
\<close>

definition empty_file :: pf_state where
  "empty_file = \<lparr>pf_fd = 0, pf_pages = [], pf_pins = (\<lambda>_. 0), pf_dirty = (\<lambda>_. False),
                  pf_bufsize = 40\<rparr>"

datatype rhf_call = Insert "byte list" int | Delete RID

fun rhf_run :: "pf_state \<Rightarrow> int \<Rightarrow> rhf_call list \<Rightarrow> ((int \<times> RID) list \<times> pf_state) outcome" where
  "rhf_run st fd [] = Returns ([], st)"
| "rhf_run st fd (Insert recordData len # cs) =
     (case RHF_InsertRecord st fd recordData len \<lparr>pageNum = 0, slotNum = 0\<rparr> of
        Fault \<Rightarrow> Fault
      | Returns (c, r, st') \<Rightarrow>
          (case rhf_run st' fd cs of
             Fault \<Rightarrow> Fault
           | Returns (rs, st'') \<Rightarrow> Returns ((c, r) # rs, st'')))"
| "rhf_run st fd (Delete rid # cs) =
     (case RHF_DeleteRecord st fd rid of
        Fault \<Rightarrow> Fault
      | Returns (c, st') \<Rightarrow>
          (case rhf_run st' fd cs of
             Fault \<Rightarrow> Fault
           | Returns (rs, st'') \<Rightarrow> Returns ((c, rid) # rs, st'')))"

definition returns_of :: "rhf_call list \<Rightarrow> (int \<times> int \<times> int) list option" where
  "returns_of cs =
     (case rhf_run empty_file 0 cs of
        Fault \<Rightarrow> None
      | Returns (rs, st) \<Rightarrow> Some (map (\<lambda>(c, r). (c, pageNum r, slotNum r)) rs))"

definition file_after :: "rhf_call list \<Rightarrow> pf_state" where
  "file_after cs = (case rhf_run empty_file 0 cs of Fault \<Rightarrow> empty_file | Returns (rs, st) \<Rightarrow> st)"

text \<open>A file with two records, of one and of two bytes.\<close>

definition two_records :: pf_state where
  "two_records = file_after [Insert [1] 1, Insert [2, 3] 2]"

text \<open>
  The file in which two one-byte records have been inserted and both deleted, the
  record in slot 0 first; a run that repeats the second delete and then inserts twice;
  records of 4080 bytes.
\<close>

definition two_deleted :: pf_state where
  "two_deleted = file_after [Insert [1] 1, Insert [2] 1,
                             Delete \<lparr>pageNum = 0, slotNum = 0\<rparr>, Delete \<lparr>pageNum = 0, slotNum = 1\<rparr>]"

definition reused_twice :: "rhf_call list" where
  "reused_twice = [Insert [1] 1, Insert [2] 1,
                   Delete \<lparr>pageNum = 0, slotNum = 0\<rparr>, Delete \<lparr>pageNum = 0, slotNum = 1\<rparr>,
                   Delete \<lparr>pageNum = 0, slotNum = 1\<rparr>, Insert [3] 1, Insert [4] 1]"

definition record_4080 :: "byte list" where
  "record_4080 = [5, 0, 0, 0] @ replicate 4076 7"

definition record_ff :: "byte list" where
  "record_ff = [255, 255, 255, 255] @ replicate 4076 7"

text \<open>A record of 4080 bytes whose first four bytes spell its length, 4080.\<close>

definition record_f0 :: "byte list" where
  "record_f0 = [240, 15, 0, 0] @ replicate 4076 7"

section \<open>States named in the theorems\<close>

text \<open>
  \<open>fix_state st p\<close> is \<open>st\<close> with one more pin on page \<open>p\<close>; \<open>new_page_state st\<close> is \<open>st\<close>
  with one more page, initialised by \<^verbatim>\<open>rhf_InitPage\<close>, fixed once and dirty.
  \<open>page_chosen st len start p s\<close> says that \<open>p\<close> is the first page from \<open>start\<close> on that passes
  the test of the page scan for a record of \<open>len\<close> bytes and \<open>s\<close> is \<open>st\<close> with that page
  fixed, or that no page of the file from \<open>start\<close> on passes it, \<open>p\<close> is the number of a new
  page and \<open>s\<close> is \<open>st\<close> with this page added.
\<close>

definition fix_state :: "pf_state \<Rightarrow> int \<Rightarrow> pf_state" where
  "fix_state st p = st\<lparr>pf_pins := (pf_pins st)(nat p := Suc (pf_pins st (nat p)))\<rparr>"

definition new_page_state :: "pf_state \<Rightarrow> pf_state" where
  "new_page_state st =
     st\<lparr>pf_pages := pf_pages st @ [rhf_InitPage (\<lambda>_. 0)],
        pf_pins := (pf_pins st)(length (pf_pages st) := 1),
        pf_dirty := (pf_dirty st)(length (pf_pages st) := True)\<rparr>"

definition page_chosen :: "pf_state \<Rightarrow> int \<Rightarrow> int \<Rightarrow> int \<Rightarrow> pf_state \<Rightarrow> bool" where
  "page_chosen st len start p s \<longleftrightarrow>
     (\<forall>j. start \<le> j \<and> j < p \<and> j < int (length (pf_pages st)) \<longrightarrow> \<not> page_has_space (get_page st j) len)
     \<and> (start \<le> p \<and> p < int (length (pf_pages st)) \<and> page_has_space (get_page st p) len
            \<and> s = fix_state st p
         \<or> p = int (length (pf_pages st)) \<and> s = new_page_state st)"

text \<open>
  What a scan holds.  \<open>scan_ok st scan\<close>: the scan has no page fixed, or \<open>page_is_fixed\<close> is
  1, \<open>pageBuf\<close> is the buffer of \<open>currentPage\<close>, the file is the one the scan was started
  on, and that page is in the file and fixed.  \<open>scan_pins scan p\<close>: the number of pins
  that the scan holds on page \<open>p\<close>.  \<open>new_scan\<close> is a scan started on descriptor 0.
\<close>

definition scan_ok :: "pf_state \<Rightarrow> RHF_Scan \<Rightarrow> bool" where
  "scan_ok st scan \<longleftrightarrow>
     page_is_fixed scan = 0
     \<or> page_is_fixed scan = 1 \<and> scan_fd scan = pf_fd st
         \<and> pageBuf scan = Some (currentPage scan) \<and> buf_valid st (currentPage scan)"

definition scan_pins :: "RHF_Scan \<Rightarrow> nat \<Rightarrow> nat" where
  "scan_pins scan p = (if page_is_fixed scan \<noteq> 0 \<and> int p = currentPage scan then 1 else 0)"

definition new_scan :: RHF_Scan where
  "new_scan = snd (RHF_StartScan 0
      \<lparr>scan_fd = 0, currentPage = 0, currentSlot = 0, pageBuf = None, page_is_fixed = 0\<rparr>)"

section \<open>The records of a file\<close>

text \<open>
  What a page holds, read off its bytes.  A slot is \<open>live\<close> when it is one of the
  \<open>numSlots\<close> slots and its \<open>recordLength\<close> is not -1, the mark that
  \<^verbatim>\<open>RHF_DeleteRecord\<close> writes and \<^verbatim>\<open>RHF_GetNextRecord\<close> tests; \<open>record_of\<close> are the bytes its
  \<open>recordOffset\<close> and \<open>recordLength\<close> describe.  \<open>free_chain pg h xs\<close>: the list of free
  slots that starts at \<open>h\<close> and follows the \<open>recordOffset\<close> links is \<open>xs\<close> and ends with -1.

  \<open>page_inv\<close> is the state of a page that \<^verbatim>\<open>rhf_InitPage\<close> establishes: the slot array
  lies below \<open>freeSpacePtr\<close>, every live record lies between \<open>freeSpacePtr\<close> and the end of
  the page, and the free-slot chain from \<open>nextFreeSlot\<close> runs through slots marked deleted,
  each one once.  \<open>record_fits\<close>: between the slot array, with a new slot when the chain is
  empty, and \<open>freeSpacePtr\<close> there is room for a record of \<open>len\<close> bytes.
\<close>

definition live :: "page \<Rightarrow> int \<Rightarrow> bool" where
  "live pg sn \<longleftrightarrow> 0 \<le> sn \<and> sn < numSlots pg \<and> recordLength pg sn \<noteq> - 1"

definition record_of :: "page \<Rightarrow> int \<Rightarrow> byte list" where
  "record_of pg sn = bytes_at pg (nat (recordOffset pg sn)) (nat (recordLength pg sn))"

fun free_chain :: "page \<Rightarrow> int \<Rightarrow> int list \<Rightarrow> bool" where
  "free_chain pg h [] \<longleftrightarrow> h = - 1"
| "free_chain pg h (x # xs) \<longleftrightarrow> h = x \<and> free_chain pg (recordOffset pg x) xs"

definition page_inv :: "page \<Rightarrow> bool" where
  "page_inv pg \<longleftrightarrow>
     0 \<le> numSlots pg \<and> 12 + 8 * numSlots pg \<le> freeSpacePtr pg \<and> freeSpacePtr pg \<le> PF_PAGE_SIZE
     \<and> (\<forall>sn. live pg sn \<longrightarrow> 0 \<le> recordLength pg sn \<and> freeSpacePtr pg \<le> recordOffset pg sn
                           \<and> recordOffset pg sn + recordLength pg sn \<le> PF_PAGE_SIZE)
     \<and> (\<exists>xs. free_chain pg (nextFreeSlot pg) xs \<and> distinct xs
             \<and> (\<forall>x\<in>set xs. 0 \<le> x \<and> x < numSlots pg \<and> recordLength pg x = - 1))"

definition record_fits :: "page \<Rightarrow> int \<Rightarrow> bool" where
  "record_fits pg len \<longleftrightarrow>
     0 \<le> len \<and> 12 + 8 * numSlots pg + spaceNeededForSlot pg + len \<le> freeSpacePtr pg"

text \<open>
  The page that \<^verbatim>\<open>RHF_InsertRecord\<close> leaves, from the page \<open>pg\<close> it has fixed: the slot it
  takes (lines 104 to 119 of rhf.c), the header after the slot is taken, and the page
  after the slot is filled and the record copied (lines 121 to 130).  \<open>page_delete\<close> is the
  page after the three assignments of \<^verbatim>\<open>RHF_DeleteRecord\<close> (lines 199 to 202).
\<close>

definition insert_slot :: "page \<Rightarrow> int" where
  "insert_slot pg = (if nextFreeSlot pg \<noteq> - 1 then nextFreeSlot pg else numSlots pg)"

definition slot_taken :: "page \<Rightarrow> page" where
  "slot_taken pg =
     (if nextFreeSlot pg \<noteq> - 1 then wr32 pg 8 (recordOffset pg (nextFreeSlot pg))
      else wr32 pg 0 (numSlots pg + 1))"

definition page_insert :: "page \<Rightarrow> byte list \<Rightarrow> int \<Rightarrow> page" where
  "page_insert pg recordData len =
     memcpy_to_page
       (wr32 (wr32 (wr32 (slot_taken pg) 4 (freeSpacePtr (slot_taken pg) - len))
          (GET_SLOT (insert_slot pg)) (to_int32 (freeSpacePtr (slot_taken pg) - len)))
          (GET_SLOT (insert_slot pg) + 4) len)
       (nat (to_int32 (freeSpacePtr (slot_taken pg) - len))) recordData (nat len)"

definition page_delete :: "page \<Rightarrow> int \<Rightarrow> page" where
  "page_delete pg sn =
     wr32 (wr32 (wr32 pg (GET_SLOT sn) (nextFreeSlot pg)) (GET_SLOT sn + 4) (- 1)) 8 sn"

text \<open>
  The records of a file as a map from RIDs to byte strings, and the files between two
  calls of the record layer: every page is a slotted page, no page is fixed and the pool
  has a frame.
\<close>

definition stored :: "pf_state \<Rightarrow> RID \<Rightarrow> byte list option" where
  "stored st r =
     (if 0 \<le> pageNum r \<and> pageNum r < int (length (pf_pages st))
         \<and> live (get_page st (pageNum r)) (slotNum r)
      then Some (record_of (get_page st (pageNum r)) (slotNum r)) else None)"

definition file_inv :: "pf_state \<Rightarrow> bool" where
  "file_inv st \<longleftrightarrow>
     (\<forall>p. p < length (pf_pages st) \<longrightarrow> page_inv (pf_pages st ! p))
     \<and> (\<forall>p. pf_pins st p = 0) \<and> 0 < pf_bufsize st"

text \<open>
  Runs of the driver \<open>rhf_run\<close>.  \<open>fits_call\<close>: an insert passes the length of its record,
  which is at most the 4076 bytes that an empty page has room for beside one slot.
  \<open>deletes_stored st fd cs\<close>: along the run of \<open>cs\<close> from \<open>st\<close>, every delete names a record
  that is stored in the file at that moment.  \<open>run_map m cs rs\<close> is what the run does to
  the map of the records, given the RIDs \<open>rs\<close> that the calls returned.
\<close>

fun fits_call :: "rhf_call \<Rightarrow> bool" where
  "fits_call (Insert recordData len) \<longleftrightarrow> 0 \<le> len \<and> len \<le> 4076 \<and> len = int (length recordData)"
| "fits_call (Delete rid) \<longleftrightarrow> True"

fun deletes_stored :: "pf_state \<Rightarrow> int \<Rightarrow> rhf_call list \<Rightarrow> bool" where
  "deletes_stored st fd [] \<longleftrightarrow> True"
| "deletes_stored st fd (Insert recordData len # cs) \<longleftrightarrow>
     (case RHF_InsertRecord st fd recordData len \<lparr>pageNum = 0, slotNum = 0\<rparr> of
        Fault \<Rightarrow> True
      | Returns (c, r, st') \<Rightarrow> deletes_stored st' fd cs)"
| "deletes_stored st fd (Delete rid # cs) \<longleftrightarrow>
     stored st rid \<noteq> None
     \<and> (case RHF_DeleteRecord st fd rid of
          Fault \<Rightarrow> True
        | Returns (c, st') \<Rightarrow> deletes_stored st' fd cs)"

fun run_map :: "(RID \<rightharpoonup> byte list) \<Rightarrow> rhf_call list \<Rightarrow> (int \<times> RID) list \<Rightarrow> (RID \<rightharpoonup> byte list)" where
  "run_map m [] rs = m"
| "run_map m (c # cs) [] = m"
| "run_map m (Insert recordData len # cs) ((c, r) # rs) = run_map (m(r \<mapsto> recordData)) cs rs"
| "run_map m (Delete rid # cs) ((c, r) # rs) = run_map (m(rid := None)) cs rs"

text \<open>A run of that kind on the empty file: two inserts and the delete of the first record.\<close>

definition example_run :: "rhf_call list" where
  "example_run = [Insert [1] 1, Insert [2, 3] 2, Delete \<lparr>pageNum = 0, slotNum = 0\<rparr>]"

text \<open>
  A full scan as testrhf.c runs it: \<^verbatim>\<open>RHF_StartScan\<close>, \<^verbatim>\<open>RHF_GetNextRecord\<close> as long as it
  returns \<^verbatim>\<open>RHF_OK\<close>, \<^verbatim>\<open>RHF_EndScan\<close>.  \<open>scan_loop\<close> is the \<^verbatim>\<open>while\<close> loop with a bound \<open>n\<close> on
  the number of calls (\<open>None\<close>: the bound is reached); it collects the RID and the bytes
  that each call returned.  \<open>full_scan\<close> gives the records, the code that ended the loop
  and the state after \<^verbatim>\<open>RHF_EndScan\<close>.
\<close>

fun scan_loop ::
  "nat \<Rightarrow> pf_state \<Rightarrow> RHF_Scan \<Rightarrow> (nat \<Rightarrow> byte) \<Rightarrow> int \<Rightarrow> RID
     \<Rightarrow> ((RID \<times> byte list) list \<times> int \<times> RHF_Scan \<times> pf_state) outcome option" where
  "scan_loop 0 st scan recBuf recLen recRID = None"
| "scan_loop (Suc n) st scan recBuf recLen recRID =
     (case RHF_GetNextRecord st scan recBuf recLen recRID of
        Fault \<Rightarrow> Some Fault
      | Returns (c, scan', recBuf', recLen', recRID', st') \<Rightarrow>
          if c = RHF_OK then
            (case scan_loop n st' scan' recBuf' recLen' recRID' of
               None \<Rightarrow> None
             | Some Fault \<Rightarrow> Some Fault
             | Some (Returns (rs, c', scan'', st'')) \<Rightarrow>
                 Some (Returns ((recRID', bytes_at recBuf' 0 (nat recLen')) # rs, c', scan'', st'')))
          else Some (Returns ([], c, scan', st')))"

definition full_scan ::
  "nat \<Rightarrow> pf_state \<Rightarrow> int \<Rightarrow> RHF_Scan \<Rightarrow> (nat \<Rightarrow> byte) \<Rightarrow> int \<Rightarrow> RID
     \<Rightarrow> ((RID \<times> byte list) list \<times> int \<times> pf_state) outcome option" where
  "full_scan n st fd scan0 recBuf recLen recRID =
     (case scan_loop n st (snd (RHF_StartScan fd scan0)) recBuf recLen recRID of
        None \<Rightarrow> None
      | Some Fault \<Rightarrow> Some Fault
      | Some (Returns (rs, c, scan', st')) \<Rightarrow>
          (case RHF_EndScan st' scan' of (c2, scan'', st'') \<Rightarrow> Some (Returns (rs, c, st''))))"

text \<open>
  The records in the order of a scan: the live slots of a page from slot \<open>k\<close> on, the
  records of page \<open>p\<close> from slot \<open>k\<close> on, and the records of the pages from \<open>q\<close> on.
  \<open>remaining st scan\<close> are the records that a scan in progress has not returned yet.
  \<open>scanning st0 scan st\<close>: the scan runs on the file \<open>st0\<close>, and the state \<open>st\<close> is \<open>st0\<close>
  with the one page fixed that the scan holds.  \<open>next_spec\<close> is what a call of
  \<^verbatim>\<open>RHF_GetNextRecord\<close> owes: at the end \<^verbatim>\<open>RHF_EOF\<close>, the outputs untouched and no page
  fixed; otherwise the next record, its RID and length, and the scan moved behind it.
\<close>

definition slot_list :: "page \<Rightarrow> int \<Rightarrow> int list" where
  "slot_list pg k = filter (\<lambda>sn. recordLength pg sn \<noteq> - 1) (map int [nat k ..< nat (numSlots pg)])"

definition page_recs :: "pf_state \<Rightarrow> int \<Rightarrow> int \<Rightarrow> (RID \<times> byte list) list" where
  "page_recs st p k =
     map (\<lambda>sn. (\<lparr>pageNum = p, slotNum = sn\<rparr>, record_of (get_page st p) sn))
       (slot_list (get_page st p) k)"

definition recs_from :: "pf_state \<Rightarrow> int \<Rightarrow> (RID \<times> byte list) list" where
  "recs_from st q = concat (map (\<lambda>p. page_recs st (int p) 0) [nat q ..< length (pf_pages st)])"

definition remaining :: "pf_state \<Rightarrow> RHF_Scan \<Rightarrow> (RID \<times> byte list) list" where
  "remaining st scan =
     (if page_is_fixed scan = 0 then recs_from st (max 0 (currentPage scan + 1))
      else page_recs st (currentPage scan) (currentSlot scan) @ recs_from st (currentPage scan + 1))"

definition scanning :: "pf_state \<Rightarrow> RHF_Scan \<Rightarrow> pf_state \<Rightarrow> bool" where
  "scanning st0 scan st \<longleftrightarrow>
     scan_fd scan = pf_fd st0
     \<and> (page_is_fixed scan = 0 \<and> st = st0
        \<or> page_is_fixed scan = 1 \<and> pageBuf scan = Some (currentPage scan)
            \<and> 0 \<le> currentPage scan \<and> currentPage scan < int (length (pf_pages st0))
            \<and> 0 \<le> currentSlot scan \<and> st = fix_state st0 (currentPage scan))"

definition next_spec ::
  "pf_state \<Rightarrow> (RID \<times> byte list) list \<Rightarrow> (nat \<Rightarrow> byte) \<Rightarrow> int \<Rightarrow> RID
     \<Rightarrow> (int \<times> RHF_Scan \<times> (nat \<Rightarrow> byte) \<times> int \<times> RID \<times> pf_state) outcome \<Rightarrow> bool" where
  "next_spec st0 rem recordBuf len rid out \<longleftrightarrow>
     (case out of
        Fault \<Rightarrow> False
      | Returns (c, scan', buf', l, r, st') \<Rightarrow>
          (case rem of
             [] \<Rightarrow> c = RHF_EOF \<and> page_is_fixed scan' = 0 \<and> buf' = recordBuf \<and> l = len \<and> r = rid
                   \<and> st' = st0
           | x # rest \<Rightarrow> c = RHF_OK \<and> r = fst x \<and> l = int (length (snd x))
                   \<and> bytes_at buf' 0 (length (snd x)) = snd x
                   \<and> scanning st0 scan' st' \<and> remaining st0 scan' = rest))"

section \<open>Basic facts: 32-bit fields in a page\<close>

lemma uint_byte_of_int: "uint (word_of_int x :: byte) = x mod 256"
  by (simp add: uint_word_of_int)

lemma mod_split: "0 \<le> c \<Longrightarrow> (a::int) mod b + b * (a div b mod c) = a mod (b * c)"
  by (simp only: zmod_zmult2_eq add.commute)

lemma le_bytes:
  "(v::int) mod 256 + 256 * (v div 256 mod 256) + 65536 * (v div 65536 mod 256)
     + 16777216 * (v div 16777216 mod 256) = v mod 4294967296"
proof -
  have c: "v mod 256 + 256 * (v div 256 mod 256) = v mod 65536"
    using mod_split[of 256 v 256] by simp
  have b: "v mod 65536 + 65536 * (v div 65536 mod 256) = v mod 16777216"
    using mod_split[of 256 v 65536] by simp
  have a: "v mod 16777216 + 16777216 * (v div 16777216 mod 256) = v mod 4294967296"
    using mod_split[of 256 v 16777216] by simp
  show ?thesis by (simp only: a b c)
qed

lemma to_int32_mod: "to_int32 (v mod 4294967296) = to_int32 v"
  unfolding to_int32_def by (simp add: mod_add_left_eq)

lemma to_int32_id: "- 2147483648 \<le> v \<Longrightarrow> v < 2147483648 \<Longrightarrow> to_int32 v = v"
  unfolding to_int32_def by simp

lemma to_int32_range: "- 2147483648 \<le> to_int32 v \<and> to_int32 v < 2147483648"
proof -
  have "0 \<le> (v + 2147483648) mod 4294967296" "(v + 2147483648) mod 4294967296 < 4294967296"
    by simp_all
  then show ?thesis unfolding to_int32_def by linarith
qed

lemma rd32_range: "- 2147483648 \<le> rd32 pg off \<and> rd32 pg off < 2147483648"
  unfolding rd32_def by (rule to_int32_range)

lemma rd32_wr32_same: "rd32 (wr32 pg off v) off = to_int32 v"
  by (simp add: rd32_def wr32_def uint_byte_of_int le_bytes to_int32_mod)

lemma rd32_wr32_other:
  "off' + 4 \<le> off \<or> off + 4 \<le> off' \<Longrightarrow> rd32 (wr32 pg off v) off' = rd32 pg off'"
  by (auto simp add: rd32_def wr32_def)

lemma wr32_other_byte: "i < off \<or> off + 4 \<le> i \<Longrightarrow> wr32 pg off v i = pg i"
  by (auto simp add: wr32_def)

lemma rd32_cong: "(\<And>i. off \<le> i \<Longrightarrow> i < off + 4 \<Longrightarrow> pg' i = pg i) \<Longrightarrow> rd32 pg' off = rd32 pg off"
  by (simp add: rd32_def)

section \<open>Basic facts: fix and unfix\<close>

lemma PF_GetThisPage_Inr:
  assumes "PF_GetThisPage st fd p = Inr st1"
  shows "fd = pf_fd st" and "0 \<le> p" and "p < int (length (pf_pages st))"
    and "st1 = st\<lparr>pf_pins := (pf_pins st)(nat p := Suc (pf_pins st (nat p)))\<rparr>"
  using assms by (auto simp: PF_GetThisPage_def pf_fix_def split: if_splits)

lemma PF_GetThisPage_Inl:
  "PF_GetThisPage st fd p = Inl e \<Longrightarrow> e = PFE_FD \<or> e = PFE_INVALIDPAGE \<or> e = PFE_NOBUF"
  by (auto simp: PF_GetThisPage_def pf_fix_def split: if_splits)

lemma PF_UnfixPage_Inl:
  "PF_UnfixPage st fd p d = Inl e \<Longrightarrow> e = PFE_FD \<or> e = PFE_PAGENOTINBUF \<or> e = PFE_PAGEUNFIXED"
  by (auto simp: PF_UnfixPage_def split: if_splits)

lemma unfix_after_fix:
  assumes "PF_GetThisPage st fd p = Inr st1"
  shows "PF_UnfixPage st1 fd p False = Inr st"
  using PF_GetThisPage_Inr[OF assms] by (simp add: PF_UnfixPage_def)

lemma unfix_ignored_after_fix:
  assumes "PF_GetThisPage st fd p = Inr st1"
  shows "unfix_ignored st1 fd p False = st"
  by (simp add: unfix_ignored_def unfix_after_fix[OF assms])

lemma get_page_after_fix:
  assumes "PF_GetThisPage st fd p = Inr st1"
  shows "get_page st1 q = get_page st q"
  using PF_GetThisPage_Inr[OF assms] by (simp add: get_page_def)

section \<open>Reading and deleting a record: the error returns\<close>

lemma RHF_GetRecord_out_of_range:
  assumes "PF_GetThisPage st fd (pageNum rid) = Inr st1"
    and "slotNum rid < 0 \<or> numSlots (get_page st (pageNum rid)) \<le> slotNum rid"
  shows "RHF_GetRecord st fd rid recordBuf len = Returns (RHF_INVALIDRID, recordBuf, len, st)"
  using assms(2)
  by (simp add: RHF_GetRecord_def assms(1) get_page_after_fix[OF assms(1)]
        unfix_ignored_after_fix[OF assms(1)])

lemma RHF_GetRecord_in_range:
  assumes "PF_GetThisPage st fd (pageNum rid) = Inr st1"
    and "0 \<le> slotNum rid" and "slotNum rid < numSlots (get_page st (pageNum rid))"
    and "RHF_GetRecord st fd rid recordBuf len = Returns (c, b, l, s)"
  shows "c = RHF_NORECORD \<or> c = RHF_OK"
  using assms(2-)
  by (auto simp: RHF_GetRecord_def assms(1) get_page_after_fix[OF assms(1)]
        unfix_after_fix[OF assms(1)] Let_def split: if_splits)

lemma RHF_DeleteRecord_out_of_range:
  assumes "PF_GetThisPage st fd (pageNum rid) = Inr st1"
    and "slotNum rid < 0 \<or> numSlots (get_page st (pageNum rid)) \<le> slotNum rid"
  shows "RHF_DeleteRecord st fd rid = Returns (RHF_INVALIDRID, st)"
  using assms(2)
  by (simp add: RHF_DeleteRecord_def assms(1) get_page_after_fix[OF assms(1)]
        unfix_ignored_after_fix[OF assms(1)])

lemma unfix_dirty_after_fix:
  assumes "PF_GetThisPage st fd p = Inr st1"
  shows "PF_UnfixPage (set_page st1 p pg) fd p True
           = Inr ((set_page st p pg)\<lparr>pf_dirty := (pf_dirty st)(nat p := True)\<rparr>)"
  using PF_GetThisPage_Inr[OF assms] by (simp add: PF_UnfixPage_def set_page_def)

lemma RHF_DeleteRecord_in_range:
  assumes "PF_GetThisPage st fd (pageNum rid) = Inr st1"
    and "0 \<le> slotNum rid" and "slotNum rid < numSlots (get_page st (pageNum rid))"
    and "RHF_DeleteRecord st fd rid = Returns (c, s)"
  shows "c = RHF_NORECORD \<or> c = RHF_OK"
  using assms(2-)
  by (auto simp: RHF_DeleteRecord_def assms(1) get_page_after_fix[OF assms(1)]
        unfix_dirty_after_fix[OF assms(1)] Let_def split: if_splits)

text \<open>
  C9.  Let the fix of the RID's page succeed.  Then \<^verbatim>\<open>RHF_GetRecord\<close> and
  \<^verbatim>\<open>RHF_DeleteRecord\<close> return \<^verbatim>\<open>RHF_INVALIDRID\<close> exactly when the slot number is negative or
  at least the page's \<open>numSlots\<close>; and in that case the caller's buffer and length come back
  as they were passed and the state of the file (the bytes of every page, the pin counts,
  the dirty flags) is the state before the call.
\<close>

theorem invalid_rid_iff_slot_out_of_range:
  assumes "PF_GetThisPage st fd (pageNum rid) = Inr st1"
  shows "((\<exists>b l s. RHF_GetRecord st fd rid recordBuf len = Returns (RHF_INVALIDRID, b, l, s))
            \<longleftrightarrow> (slotNum rid < 0 \<or> numSlots (get_page st (pageNum rid)) \<le> slotNum rid))
       \<and> ((\<exists>s. RHF_DeleteRecord st fd rid = Returns (RHF_INVALIDRID, s))
            \<longleftrightarrow> (slotNum rid < 0 \<or> numSlots (get_page st (pageNum rid)) \<le> slotNum rid))
       \<and> (slotNum rid < 0 \<or> numSlots (get_page st (pageNum rid)) \<le> slotNum rid
            \<longrightarrow> RHF_GetRecord st fd rid recordBuf len = Returns (RHF_INVALIDRID, recordBuf, len, st)
              \<and> RHF_DeleteRecord st fd rid = Returns (RHF_INVALIDRID, st))"
proof (cases "slotNum rid < 0 \<or> numSlots (get_page st (pageNum rid)) \<le> slotNum rid")
  case True
  show ?thesis
    using True RHF_GetRecord_out_of_range[OF assms True]
      RHF_DeleteRecord_out_of_range[OF assms True] by simp
next
  case False
  then have r: "0 \<le> slotNum rid" "slotNum rid < numSlots (get_page st (pageNum rid))"
    by auto
  have "\<not> (\<exists>b l s. RHF_GetRecord st fd rid recordBuf len = Returns (RHF_INVALIDRID, b, l, s))"
    using RHF_GetRecord_in_range[OF assms r] by fastforce
  moreover have "\<not> (\<exists>s. RHF_DeleteRecord st fd rid = Returns (RHF_INVALIDRID, s))"
    using RHF_DeleteRecord_in_range[OF assms r] by fastforce
  ultimately show ?thesis using False by blast
qed

lemma rd32_memcpy_other:
  "off' + 4 \<le> off \<or> off + n \<le> off' \<Longrightarrow> rd32 (memcpy_to_page pg off src n) off' = rd32 pg off'"
  by (auto simp: rd32_def memcpy_to_page_def)

lemmas rhf_eval = file_after_def empty_file_def returns_of_def
  RHF_InsertRecord_def RHF_DeleteRecord_def RHF_GetRecord_def
  rhf_GetPageWithSpace_def rhf_GetPageWithSpace_from.simps insert_write_def
  PF_GetNextPage_def PF_AllocPage_def PF_GetThisPage_def PF_UnfixPage_def pf_fix_def
  pinned_count_def set_page_def get_page_def unfix_ignored_def
  rhf_InitPage_def nextFreeSlot_def numSlots_def freeSpacePtr_def recordOffset_def
  recordLength_def slot_in_page_def GET_SLOT_def in_page_def Let_def
  page_has_space_def spaceNeededForSlot_def freeSpace_def
  rd32_wr32_same rd32_wr32_other rd32_memcpy_other to_int32_def

lemma two_records_facts:
  "pf_fd two_records = 0" "length (pf_pages two_records) = 1" "pf_pins two_records 0 = 0"
  "pinned_count two_records = 0" "pf_bufsize two_records = 40"
  "numSlots (get_page two_records 0) = 2"
  by (simp_all add: two_records_def rhf_eval)

theorem invalid_rid_iff_slot_out_of_range_witness:
  "RHF_GetRecord two_records 0 \<lparr>pageNum = 0, slotNum = 2\<rparr> (\<lambda>_. 0) 0
      = Returns (RHF_INVALIDRID, (\<lambda>_. 0), 0, two_records)
   \<and> RHF_DeleteRecord two_records 0 \<lparr>pageNum = 0, slotNum = 2\<rparr> = Returns (RHF_INVALIDRID, two_records)
   \<and> \<not> (\<exists>b l s. RHF_GetRecord two_records 0 \<lparr>pageNum = 0, slotNum = 1\<rparr> (\<lambda>_. 0) 0
                = Returns (RHF_INVALIDRID, b, l, s))"
proof -
  have fx: "PF_GetThisPage two_records 0 0
      = Inr (two_records\<lparr>pf_pins := (pf_pins two_records)(0 := 1)\<rparr>)"
    by (simp add: PF_GetThisPage_def pf_fix_def two_records_facts)
  show ?thesis
    using invalid_rid_iff_slot_out_of_range
            [of two_records 0 "\<lparr>pageNum = 0, slotNum = 2\<rparr>" _ "\<lambda>_. 0" 0]
          invalid_rid_iff_slot_out_of_range
            [of two_records 0 "\<lparr>pageNum = 0, slotNum = 1\<rparr>" _ "\<lambda>_. 0" 0]
          fx
    by (simp add: two_records_facts)
qed

section \<open>The page scan of an insert\<close>

lemma PF_GetNextPage_Inr:
  assumes "PF_GetNextPage st fd pnum = Inr (q, st1)"
  shows "fd = pf_fd st" and "q = max 0 (pnum + 1)" and "q < int (length (pf_pages st))"
    and "st1 = fix_state st q"
  using assms
  by (auto simp: PF_GetNextPage_def pf_fix_def fix_state_def Let_def split: if_splits)

lemma PF_GetNextPage_Inl:
  assumes "PF_GetNextPage st fd pnum = Inl e"
  shows "e = PFE_EOF \<longrightarrow> int (length (pf_pages st)) \<le> max 0 (pnum + 1)"
  using assms
  by (auto simp: PF_GetNextPage_def pf_fix_def Let_def split: if_splits)

lemma unfix_fix_state:
  assumes "fd = pf_fd st" and "0 \<le> q" and "q < int (length (pf_pages st))"
  shows "PF_UnfixPage (fix_state st q) fd q False = Inr st"
  using assms by (simp add: PF_UnfixPage_def fix_state_def)

lemma PF_AllocPage_Inr:
  assumes "PF_AllocPage st fd = Inr (p, st1)"
  shows "p = int (length (pf_pages st))"
    and "set_page st1 p (rhf_InitPage (get_page st1 p)) = new_page_state st"
  using assms
  by (auto simp: PF_AllocPage_def new_page_state_def set_page_def get_page_def Let_def
           split: if_splits)

lemma get_page_fix_state: "get_page (fix_state st p) q = get_page st q"
  by (simp add: get_page_def fix_state_def)

lemma loop_sound:
  assumes "rhf_GetPageWithSpace_from st fd len pnum = Returns r"
  shows "case r of Inl (e, s) \<Rightarrow> s = st
         | Inr (p, s) \<Rightarrow> page_chosen st len (max 0 (pnum + 1)) p s"
  using assms
proof (induction "pages_after st pnum" arbitrary: pnum rule: less_induct)
  case less
  show ?case
  proof (cases "PF_GetNextPage st fd pnum")
    case (Inl e)
    show ?thesis
    proof (cases "e = PFE_EOF")
      case False
      with less.prems Inl show ?thesis
        by (auto simp add: rhf_GetPageWithSpace_from.simps[of st fd len pnum])
    next
      case True
      from PF_GetNextPage_Inl[OF Inl] True
      have eof: "int (length (pf_pages st)) \<le> max 0 (pnum + 1)" by simp
      show ?thesis
      proof (cases "PF_AllocPage st fd")
        case (Inl e')
        with less.prems \<open>PF_GetNextPage st fd pnum = Inl e\<close> True show ?thesis
          by (auto simp add: rhf_GetPageWithSpace_from.simps[of st fd len pnum])
      next
        case (Inr x)
        obtain p st1 where x: "x = (p, st1)" by (cases x)
        note al = PF_AllocPage_Inr[OF Inr[unfolded x]]
        from less.prems \<open>PF_GetNextPage st fd pnum = Inl e\<close> True Inr x al(2)
        have "r = Inr (p, new_page_state st)"
          by (auto simp add: rhf_GetPageWithSpace_from.simps[of st fd len pnum])
        with al(1) eof show ?thesis
          by (auto simp: page_chosen_def)
      qed
    qed
  next
    case (Inr x)
    obtain q st1 where x: "x = (q, st1)" by (cases x)
    note nx = PF_GetNextPage_Inr[OF Inr[unfolded x]]
    have q0: "0 \<le> q" using nx(2) by simp
    have buf: "get_page st1 q = get_page st q"
      by (simp add: nx(4) get_page_fix_state)
    have un: "PF_UnfixPage st1 fd q False = Inr st"
      unfolding nx(4) by (rule unfix_fix_state[OF nx(1) q0 nx(3)])
    show ?thesis
    proof (cases "page_has_space (get_page st q) len")
      case True
      with less.prems Inr x buf have "r = Inr (q, st1)"
        by (auto simp add: rhf_GetPageWithSpace_from.simps[of st fd len pnum] Let_def split: if_splits)
      with True nx q0 show ?thesis
        by (auto simp: page_chosen_def)
    next
      case False
      with less.prems Inr x buf un
      have rec: "rhf_GetPageWithSpace_from st fd len q = Returns r"
        by (simp add: rhf_GetPageWithSpace_from.simps[of st fd len pnum] Let_def split: if_splits)
      have m: "pages_after st q < pages_after st pnum"
        using nx(2,3) by (auto simp: pages_after_def)
      from less.hyps[OF m rec]
      have ih: "case r of Inl (e, s) \<Rightarrow> s = st
                | Inr (p, s) \<Rightarrow> page_chosen st len (max 0 (q + 1)) p s" .
      show ?thesis
      proof (cases r)
        case (Inl a)
        with ih show ?thesis by simp
      next
        case (Inr b)
        obtain p s where b: "b = (p, s)" by (cases b)
        from ih Inr b have pc: "page_chosen st len (q + 1) p s"
          using q0 by (simp add: max_def)
        have "page_chosen st len (max 0 (pnum + 1)) p s"
          unfolding page_chosen_def
        proof (intro conjI allI impI)
          fix j assume j: "max 0 (pnum + 1) \<le> j \<and> j < p \<and> j < int (length (pf_pages st))"
          show "\<not> page_has_space (get_page st j) len"
          proof (cases "j = q")
            case True
            with False show ?thesis by simp
          next
            case False
            with j nx(2) have "q + 1 \<le> j" by (auto simp: max_def split: if_splits)
            with pc j show ?thesis by (simp add: page_chosen_def)
          qed
        next
          from pc nx(2) show "max 0 (pnum + 1) \<le> p \<and> p < int (length (pf_pages st))
               \<and> page_has_space (get_page st p) len \<and> s = fix_state st p
             \<or> p = int (length (pf_pages st)) \<and> s = new_page_state st"
            by (auto simp: page_chosen_def)
        qed
        with Inr b show ?thesis by simp
      qed
    qed
  qed
qed

lemma loop_returns:
  assumes "fd = pf_fd st" and "pinned_count st < pf_bufsize st" and "len \<le> 2147483639"
  shows "\<exists>p s. rhf_GetPageWithSpace_from st fd len pnum = Returns (Inr (p, s))"
proof (induction "pages_after st pnum" arbitrary: pnum rule: less_induct)
  case less
  show ?case
  proof (cases "int (length (pf_pages st)) \<le> max 0 (pnum + 1)")
    case True
    with assms show ?thesis
      by (simp add: rhf_GetPageWithSpace_from.simps[of st fd len pnum] PF_GetNextPage_def
            PF_AllocPage_def Let_def)
  next
    case False
    define q where "q = max 0 (pnum + 1)"
    have nx: "PF_GetNextPage st fd pnum = Inr (q, fix_state st q)"
      using assms False
      by (simp add: PF_GetNextPage_def pf_fix_def fix_state_def q_def Let_def)
    have q0: "0 \<le> q" and ql: "q < int (length (pf_pages st))"
      using False by (auto simp: q_def)
    have un: "PF_UnfixPage (fix_state st q) fd q False = Inr st"
      by (rule unfix_fix_state[OF assms(1) q0 ql])
    have ov: "\<not> INT_MAX < len + spaceNeededForSlot (get_page st q)"
      using assms(3) by (simp add: spaceNeededForSlot_def)
    have m: "pages_after st q < pages_after st pnum"
      using False by (auto simp: pages_after_def q_def)
    from less[OF m] obtain p s where
      "rhf_GetPageWithSpace_from st fd len q = Returns (Inr (p, s))" by blast
    with nx un ov show ?thesis
      by (simp add: rhf_GetPageWithSpace_from.simps[of st fd len pnum] get_page_fix_state)
  qed
qed


lemma loop_bad_fd:
  "fd \<noteq> pf_fd st \<Longrightarrow> rhf_GetPageWithSpace_from st fd len pnum = Returns (Inl (PFE_FD, st))"
  by (simp add: rhf_GetPageWithSpace_from.simps[of st fd len pnum] PF_GetNextPage_def)

lemma bytes_at_memcpy_to_page:
  "n \<le> length src \<Longrightarrow> bytes_at (memcpy_to_page pg off src n) off n = take n src"
  by (auto simp: bytes_at_def memcpy_to_page_def list_eq_iff_nth_eq)

lemma insert_write_offset:
  "recordOffset (wr32 (wr32 (wr32 pg 4 (freeSpacePtr pg - len)) (GET_SLOT sn)
       (freeSpacePtr (wr32 pg 4 (freeSpacePtr pg - len)))) (GET_SLOT sn + 4) len) sn
     = to_int32 (freeSpacePtr pg - len)"
proof -
  have "to_int32 (to_int32 (freeSpacePtr pg - len)) = to_int32 (freeSpacePtr pg - len)"
    using to_int32_range[of "freeSpacePtr pg - len"] by (simp add: to_int32_id)
  then show ?thesis
    by (simp add: recordOffset_def freeSpacePtr_def rd32_wr32_same rd32_wr32_other)
qed

lemma insert_write_Returns:
  assumes w: "insert_write st1 fd recordData len p sn pg = Returns (c, r, s)"
    and fd: "fd = pf_fd st1" and p: "0 \<le> p" "p < int (length (pf_pages st1))"
    and pin: "0 < pf_pins st1 (nat p)"
  shows "c = RHF_OK" and "r = \<lparr>pageNum = p, slotNum = sn\<rparr>"
    and "pf_pins s = (pf_pins st1)(nat p := pf_pins st1 (nat p) - 1)"
    and "pf_dirty s = (pf_dirty st1)(nat p := True)"
    and "length (pf_pages s) = length (pf_pages st1)"
    and "\<forall>q. q \<noteq> nat p \<longrightarrow> pf_pages s ! q = pf_pages st1 ! q"
    and "in_page (to_int32 (freeSpacePtr pg - len)) len"
    and "bytes_at (get_page s p) (nat (to_int32 (freeSpacePtr pg - len))) (nat len)
           = take (nat len) recordData"
proof -
  let ?off = "to_int32 (freeSpacePtr pg - len)"
  let ?pg3 = "wr32 (wr32 (wr32 pg 4 (freeSpacePtr pg - len)) (GET_SLOT sn)
       (freeSpacePtr (wr32 pg 4 (freeSpacePtr pg - len)))) (GET_SLOT sn + 4) len"
  let ?pg4 = "memcpy_to_page ?pg3 (nat ?off) recordData (nat len)"
  have ok: "in_page ?off len \<and> len \<le> int (length recordData)"
    using w by (auto simp: insert_write_def Let_def insert_write_offset split: if_splits)
  have un: "PF_UnfixPage (set_page st1 p ?pg4) fd p True
      = Inr ((set_page st1 p ?pg4)\<lparr>pf_pins := (pf_pins st1)(nat p := pf_pins st1 (nat p) - 1),
                pf_dirty := (pf_dirty st1)(nat p := True)\<rparr>)"
    using fd p pin by (simp add: PF_UnfixPage_def set_page_def)
  have res: "c = RHF_OK \<and> r = \<lparr>pageNum = p, slotNum = sn\<rparr>
      \<and> s = (set_page st1 p ?pg4)\<lparr>pf_pins := (pf_pins st1)(nat p := pf_pins st1 (nat p) - 1),
                pf_dirty := (pf_dirty st1)(nat p := True)\<rparr>"
    using w ok un by (simp add: insert_write_def Let_def insert_write_offset)
  show "c = RHF_OK" and "r = \<lparr>pageNum = p, slotNum = sn\<rparr>" using res by simp_all
  show "pf_pins s = (pf_pins st1)(nat p := pf_pins st1 (nat p) - 1)"
    and "pf_dirty s = (pf_dirty st1)(nat p := True)"
    and "length (pf_pages s) = length (pf_pages st1)"
    and "\<forall>q. q \<noteq> nat p \<longrightarrow> pf_pages s ! q = pf_pages st1 ! q"
    using res by (simp_all add: set_page_def)
  show "in_page ?off len" using ok by simp
  have "get_page s p = ?pg4" using res p by (simp add: set_page_def get_page_def)
  moreover have "nat len \<le> length recordData" using ok by linarith
  ultimately show "bytes_at (get_page s p) (nat ?off) (nat len) = take (nat len) recordData"
    by (simp add: bytes_at_memcpy_to_page)
qed

lemma page_chosen_fixed:
  assumes "page_chosen st len start p s1" and "0 \<le> start"
  shows "0 \<le> p" and "p < int (length (pf_pages s1))" and "0 < pf_pins s1 (nat p)"
    and "pf_fd s1 = pf_fd st"
  using assms by (auto simp: page_chosen_def fix_state_def new_page_state_def)

lemma RHF_InsertRecord_cases:
  assumes "RHF_InsertRecord st fd recordData len rid = Returns (c, r, s)"
  shows "(\<exists>e. rhf_GetPageWithSpace st fd len = Returns (Inl (e, st)) \<and> c = e \<and> r = rid \<and> s = st)
       \<or> (\<exists>p s1 sn pg. rhf_GetPageWithSpace st fd len = Returns (Inr (p, s1))
             \<and> page_chosen st len 0 p s1 \<and> fd = pf_fd st
             \<and> insert_write s1 fd recordData len p sn pg = Returns (c, r, s)
             \<and> freeSpacePtr pg = freeSpacePtr (get_page s1 p))"
proof (cases "rhf_GetPageWithSpace st fd len")
  case Fault
  with assms show ?thesis by (simp add: RHF_InsertRecord_def)
next
  case (Returns x)
  then have lp: "rhf_GetPageWithSpace_from st fd len (- 1) = Returns x"
    by (simp add: rhf_GetPageWithSpace_def)
  show ?thesis
  proof (cases x)
    case (Inl a)
    obtain e s0 where a: "a = (e, s0)" by (cases a)
    from loop_sound[OF lp] Inl a have "s0 = st" by simp
    with assms Returns Inl a show ?thesis by (simp add: RHF_InsertRecord_def)
  next
    case (Inr b)
    obtain p s1 where b: "b = (p, s1)" by (cases b)
    from loop_sound[OF lp] Inr b have pc: "page_chosen st len 0 p s1" by simp
    have fd: "fd = pf_fd st"
      using loop_bad_fd[of fd st len "- 1"] lp Inr by auto
    have f1: "freeSpacePtr (wr32 (get_page s1 p) 8 v) = freeSpacePtr (get_page s1 p)" for v
      by (simp add: freeSpacePtr_def rd32_wr32_other)
    have f2: "freeSpacePtr (wr32 (get_page s1 p) 0 v) = freeSpacePtr (get_page s1 p)" for v
      by (simp add: freeSpacePtr_def rd32_wr32_other)
    from assms Returns Inr b pc fd f1 f2 show ?thesis
      by (auto simp: RHF_InsertRecord_def Let_def split: if_splits)
  qed
qed

section \<open>The page update of a delete\<close>

lemma RHF_GetRecord_state:
  assumes "RHF_GetRecord st fd rid recordBuf len = Returns (c, b, l, s)"
  shows "s = st"
proof (cases "PF_GetThisPage st fd (pageNum rid)")
  case (Inl e)
  with assms show ?thesis by (simp add: RHF_GetRecord_def)
next
  case (Inr st1)
  with assms show ?thesis
    by (auto simp: RHF_GetRecord_def Let_def unfix_ignored_after_fix[OF Inr]
          unfix_after_fix[OF Inr] split: if_splits)
qed

lemma RHF_DeleteRecord_error_state:
  assumes "RHF_DeleteRecord st fd rid = Returns (c, s)" and "c \<noteq> RHF_OK"
  shows "s = st"
proof (cases "PF_GetThisPage st fd (pageNum rid)")
  case (Inl e)
  with assms show ?thesis by (simp add: RHF_DeleteRecord_def)
next
  case (Inr st1)
  with assms show ?thesis
    by (auto simp: RHF_DeleteRecord_def Let_def unfix_ignored_after_fix[OF Inr]
          unfix_dirty_after_fix[OF Inr] split: if_splits)
qed

lemma RHF_DeleteRecord_OK:
  assumes "RHF_DeleteRecord st fd rid = Returns (RHF_OK, s)"
  shows "0 \<le> pageNum rid" and "pageNum rid < int (length (pf_pages st))"
    and "0 \<le> slotNum rid" and "slotNum rid < numSlots (get_page st (pageNum rid))"
    and "slot_in_page (slotNum rid)"
    and "recordOffset (get_page st (pageNum rid)) (slotNum rid) \<noteq> - 1"
    and "s = st\<lparr>pf_pages := (pf_pages st)[nat (pageNum rid) :=
                  wr32 (wr32 (wr32 (get_page st (pageNum rid)) (GET_SLOT (slotNum rid))
                                (nextFreeSlot (get_page st (pageNum rid))))
                          (GET_SLOT (slotNum rid) + 4) (- 1)) 8 (slotNum rid)],
               pf_dirty := (pf_dirty st)(nat (pageNum rid) := True)\<rparr>"
proof -
  obtain st1 where fx: "PF_GetThisPage st fd (pageNum rid) = Inr st1"
    using assms PF_GetThisPage_Inl[of st fd "pageNum rid"]
    by (cases "PF_GetThisPage st fd (pageNum rid)") (auto simp: RHF_DeleteRecord_def)
  note f = PF_GetThisPage_Inr[OF fx]
  show "0 \<le> pageNum rid" and "pageNum rid < int (length (pf_pages st))" using f by simp_all
  have all: "0 \<le> slotNum rid \<and> slotNum rid < numSlots (get_page st (pageNum rid))
      \<and> slot_in_page (slotNum rid)
      \<and> recordOffset (get_page st (pageNum rid)) (slotNum rid) \<noteq> - 1
      \<and> s = (set_page st (pageNum rid)
                (wr32 (wr32 (wr32 (get_page st (pageNum rid)) (GET_SLOT (slotNum rid))
                                (nextFreeSlot (get_page st (pageNum rid))))
                          (GET_SLOT (slotNum rid) + 4) (- 1)) 8 (slotNum rid)))
              \<lparr>pf_dirty := (pf_dirty st)(nat (pageNum rid) := True)\<rparr>"
    using assms
    by (auto simp: RHF_DeleteRecord_def fx Let_def get_page_after_fix[OF fx]
          unfix_dirty_after_fix[OF fx] split: if_splits)
  then show "0 \<le> slotNum rid" and "slotNum rid < numSlots (get_page st (pageNum rid))"
    and "slot_in_page (slotNum rid)"
    and "recordOffset (get_page st (pageNum rid)) (slotNum rid) \<noteq> - 1"
    by simp_all
  from all show "s = st\<lparr>pf_pages := (pf_pages st)[nat (pageNum rid) :=
                  wr32 (wr32 (wr32 (get_page st (pageNum rid)) (GET_SLOT (slotNum rid))
                                (nextFreeSlot (get_page st (pageNum rid))))
                          (GET_SLOT (slotNum rid) + 4) (- 1)) 8 (slotNum rid)],
               pf_dirty := (pf_dirty st)(nat (pageNum rid) := True)\<rparr>"
    by (simp add: set_page_def)
qed


lemma GET_SLOT_ge: "0 \<le> sn \<Longrightarrow> 12 \<le> GET_SLOT sn"
  by (simp add: GET_SLOT_def)

lemma GET_SLOT_apart:
  "0 \<le> k \<Longrightarrow> 0 \<le> sn \<Longrightarrow> k \<noteq> sn \<Longrightarrow> GET_SLOT k + 8 \<le> GET_SLOT sn \<or> GET_SLOT sn + 8 \<le> GET_SLOT k"
  by (auto simp: GET_SLOT_def)

lemma delete_page_fields:
  fixes pg :: page
  assumes sn: "0 \<le> sn" "sn < numSlots pg"
  defines "pg' \<equiv> wr32 (wr32 (wr32 pg (GET_SLOT sn) (nextFreeSlot pg)) (GET_SLOT sn + 4) (- 1)) 8 sn"
  shows "recordOffset pg' sn = nextFreeSlot pg" and "recordLength pg' sn = - 1"
    and "nextFreeSlot pg' = sn" and "numSlots pg' = numSlots pg"
    and "freeSpacePtr pg' = freeSpacePtr pg"
    and "\<And>k. 0 \<le> k \<Longrightarrow> k \<noteq> sn \<Longrightarrow> recordOffset pg' k = recordOffset pg k \<and> recordLength pg' k = recordLength pg k"
    and "\<And>i. \<not> (8 \<le> i \<and> i < 12) \<Longrightarrow> \<not> (GET_SLOT sn \<le> i \<and> i < GET_SLOT sn + 8) \<Longrightarrow> pg' i = pg i"
proof -
  note g = GET_SLOT_ge[OF sn(1)]
  have r1: "to_int32 (nextFreeSlot pg) = nextFreeSlot pg"
    using rd32_range[of pg 8] by (simp add: nextFreeSlot_def to_int32_id)
  have r2: "to_int32 sn = sn"
    using sn rd32_range[of pg 0] by (simp add: numSlots_def to_int32_id)
  show "recordOffset pg' sn = nextFreeSlot pg"
    using g by (simp add: pg'_def recordOffset_def rd32_wr32_same rd32_wr32_other r1)
  show "recordLength pg' sn = - 1"
    using g by (simp add: pg'_def recordLength_def rd32_wr32_same rd32_wr32_other to_int32_def)
  show "nextFreeSlot pg' = sn"
    by (simp add: pg'_def nextFreeSlot_def rd32_wr32_same r2)
  show "numSlots pg' = numSlots pg"
    using g by (simp add: pg'_def numSlots_def rd32_wr32_other)
  show "freeSpacePtr pg' = freeSpacePtr pg"
    using g by (simp add: pg'_def freeSpacePtr_def rd32_wr32_other)
  show "recordOffset pg' k = recordOffset pg k \<and> recordLength pg' k = recordLength pg k"
    if "0 \<le> k" "k \<noteq> sn" for k
    using GET_SLOT_apart[OF that(1) sn(1) that(2)] GET_SLOT_ge[OF that(1)] g
    by (auto simp: pg'_def recordOffset_def recordLength_def rd32_wr32_other)
  show "pg' i = pg i"
    if "\<not> (8 \<le> i \<and> i < 12)" "\<not> (GET_SLOT sn \<le> i \<and> i < GET_SLOT sn + 8)" for i
    using that by (auto simp: pg'_def wr32_other_byte)
qed

text \<open>
  What a delete that returns \<^verbatim>\<open>RHF_OK\<close> writes.  The page of the RID differs from the
  page before in the deleted slot and in \<open>nextFreeSlot\<close> only: the slot's \<open>recordOffset\<close>
  holds the previous \<open>nextFreeSlot\<close>, its \<open>recordLength\<close> is -1, \<open>nextFreeSlot\<close> is the slot
  number.  \<open>numSlots\<close>, \<open>freeSpacePtr\<close>, every other slot and every byte outside of the four
  bytes of \<open>nextFreeSlot\<close> and the eight bytes of the slot are unchanged, so every byte
  behind the slot array is.  The other pages and the pin counts are unchanged, and the
  page is marked dirty.  Whether the bytes of the records are among the unchanged ones
  depends on where the records lie: behind the slot array in a page whose records fit
  (\<open>page_delete_correct\<close> below), but not in every page that the record layer builds (the
  last of the runs at the end of this theory).
\<close>

theorem delete_changes_slot_and_free_chain_only:
  fixes pg pg' :: page
  assumes del: "RHF_DeleteRecord st fd rid = Returns (RHF_OK, s)"
  defines "pg \<equiv> get_page st (pageNum rid)" and "pg' \<equiv> get_page s (pageNum rid)"
  shows "recordOffset pg' (slotNum rid) = nextFreeSlot pg
       \<and> recordLength pg' (slotNum rid) = - 1
       \<and> nextFreeSlot pg' = slotNum rid
       \<and> numSlots pg' = numSlots pg \<and> freeSpacePtr pg' = freeSpacePtr pg
       \<and> (\<forall>k. 0 \<le> k \<and> k \<noteq> slotNum rid
             \<longrightarrow> recordOffset pg' k = recordOffset pg k \<and> recordLength pg' k = recordLength pg k)
       \<and> (\<forall>i. \<not> (8 \<le> i \<and> i < 12) \<and> \<not> (GET_SLOT (slotNum rid) \<le> i \<and> i < GET_SLOT (slotNum rid) + 8)
             \<longrightarrow> pg' i = pg i)
       \<and> (\<forall>a n. sizeof_RHF_PageHeader + sizeof_RHF_Slot * numSlots pg \<le> int a
             \<longrightarrow> bytes_at pg' a n = bytes_at pg a n)
       \<and> length (pf_pages s) = length (pf_pages st)
       \<and> (\<forall>q. q \<noteq> nat (pageNum rid) \<longrightarrow> pf_pages s ! q = pf_pages st ! q)
       \<and> pf_pins s = pf_pins st
       \<and> pf_dirty s = (pf_dirty st)(nat (pageNum rid) := True)
       \<and> pf_fd s = pf_fd st \<and> pf_bufsize s = pf_bufsize st"
proof -
  note d = RHF_DeleteRecord_OK[OF del]
  have pg': "pg' = wr32 (wr32 (wr32 pg (GET_SLOT (slotNum rid)) (nextFreeSlot pg))
                (GET_SLOT (slotNum rid) + 4) (- 1)) 8 (slotNum rid)"
    using d(1,2) by (simp add: pg'_def pg_def d(7) get_page_def)
  note f = delete_page_fields[OF d(3) d(4)[folded pg_def], folded pg']
  have bytes: "bytes_at pg' a n = bytes_at pg a n"
    if "sizeof_RHF_PageHeader + sizeof_RHF_Slot * numSlots pg \<le> int a" for a n
  proof -
    have "GET_SLOT (slotNum rid) + 8 \<le> a"
      using that d(3) d(4)[folded pg_def] by (simp add: GET_SLOT_def)
    then have "pg' (a + i) = pg (a + i)" for i
      using GET_SLOT_ge[OF d(3)] by (intro f(7)) auto
    then show ?thesis by (simp add: bytes_at_def)
  qed
  show ?thesis
    using f(1-5) f(6) f(7) bytes by (simp add: d(7))
qed


lemma memcpy_to_page_apply:
  "memcpy_to_page pg off src n i = (if off \<le> i \<and> i < off + n then src ! (i - off) else pg i)"
  by (simp add: memcpy_to_page_def)

lemma bytes_at_3: "bytes_at m off 3 = [m off, m (off + 1), m (off + 2)]"
proof -
  have "[0..<3] = [0, 1, 2::nat]" by code_simp
  then show ?thesis by (simp add: bytes_at_def)
qed

theorem delete_changes_slot_and_free_chain_only_witness:
  "\<exists>s. RHF_DeleteRecord two_records 0 \<lparr>pageNum = 0, slotNum = 1\<rparr> = Returns (RHF_OK, s)
      \<and> recordOffset (get_page s 0) 1 = - 1 \<and> recordLength (get_page s 0) 1 = - 1
      \<and> nextFreeSlot (get_page s 0) = 1 \<and> numSlots (get_page s 0) = 2
      \<and> freeSpacePtr (get_page s 0) = 4093
      \<and> recordOffset (get_page s 0) 0 = 4095 \<and> recordLength (get_page s 0) 0 = 1
      \<and> bytes_at (get_page s 0) 4093 3 = [2, 3, 1]
      \<and> pf_pins s = pf_pins two_records \<and> pf_dirty s 0"
proof -
  have ev: "\<exists>s. RHF_DeleteRecord two_records 0 \<lparr>pageNum = 0, slotNum = 1\<rparr> = Returns (RHF_OK, s)"
    by (simp add: two_records_def rhf_eval)
  then obtain s where s: "RHF_DeleteRecord two_records 0 \<lparr>pageNum = 0, slotNum = 1\<rparr> = Returns (RHF_OK, s)" ..
  have before: "nextFreeSlot (get_page two_records 0) = - 1" "numSlots (get_page two_records 0) = 2"
    "freeSpacePtr (get_page two_records 0) = 4093"
    "recordOffset (get_page two_records 0) 0 = 4095" "recordLength (get_page two_records 0) 0 = 1"
    by (simp_all add: two_records_def rhf_eval)
  have b: "bytes_at (get_page two_records 0) 4093 3 = [2, 3, 1]"
    by (simp add: two_records_def rhf_eval bytes_at_3 memcpy_to_page_apply wr32_other_byte)
  from delete_changes_slot_and_free_chain_only[OF s] before b s show ?thesis
    by (intro exI[of _ s]) simp
qed


section \<open>Pins across the record operations\<close>

lemma RHF_GetRecord_error_outputs:
  assumes "RHF_GetRecord st fd rid recordBuf len = Returns (c, b, l, s)" and "c \<noteq> RHF_OK"
  shows "b = recordBuf \<and> l = len"
proof (cases "PF_GetThisPage st fd (pageNum rid)")
  case (Inl e)
  with assms show ?thesis by (simp add: RHF_GetRecord_def)
next
  case (Inr st1)
  with assms show ?thesis
    by (auto simp: RHF_GetRecord_def Let_def unfix_after_fix[OF Inr] split: if_splits)
qed

lemma RHF_DeleteRecord_pins:
  assumes "RHF_DeleteRecord st fd rid = Returns (c, s)"
  shows "pf_pins s = pf_pins st"
proof (cases "c = RHF_OK")
  case True
  with assms RHF_DeleteRecord_OK(7)[of st fd rid s] show ?thesis by simp
next
  case False
  with assms RHF_DeleteRecord_error_state show ?thesis by blast
qed

lemma RHF_InsertRecord_pins:
  assumes "RHF_InsertRecord st fd recordData len rid = Returns (c, r, s)"
    and "q < length (pf_pages s)"
  shows "pf_pins s q = (if q < length (pf_pages st) then pf_pins st q else 0)"
proof -
  from RHF_InsertRecord_cases[OF assms(1)]
  consider (err) "s = st"
    | (ok) p s1 sn pg where "page_chosen st len 0 p s1" "fd = pf_fd st"
        "insert_write s1 fd recordData len p sn pg = Returns (c, r, s)"
    by blast
  then show ?thesis
  proof cases
    case err
    with assms(2) show ?thesis by simp
  next
    case ok
    note pf = page_chosen_fixed[OF ok(1)]
    have w: "pf_pins s = (pf_pins s1)(nat p := pf_pins s1 (nat p) - 1)"
      "length (pf_pages s) = length (pf_pages s1)"
      using insert_write_Returns[OF ok(3) _ pf(1) pf(2) pf(3)] ok(2) pf(4) by simp_all
    from ok(1) have "s1 = fix_state st p \<and> p < int (length (pf_pages st)) \<and> 0 \<le> p
        \<or> s1 = new_page_state st \<and> p = int (length (pf_pages st))"
      by (auto simp: page_chosen_def)
    then show ?thesis
    proof
      assume "s1 = fix_state st p \<and> p < int (length (pf_pages st)) \<and> 0 \<le> p"
      with w assms(2) show ?thesis by (simp add: fix_state_def)
    next
      assume "s1 = new_page_state st \<and> p = int (length (pf_pages st))"
      with w assms(2) show ?thesis by (auto simp: new_page_state_def)
    qed
  qed
qed

text \<open>
  C10.  \<^verbatim>\<open>RHF_GetRecord\<close> leaves the state of the file as it found it whenever it returns, so
  in particular when it returns \<^verbatim>\<open>RHF_INVALIDRID\<close> or \<^verbatim>\<open>RHF_NORECORD\<close>: the pin counts and
  the dirty flags are those before the call; with an error code the caller's buffer and
  length are untouched as well.  \<^verbatim>\<open>RHF_DeleteRecord\<close> leaves every pin count as it was, and
  the whole state when it returns anything but \<^verbatim>\<open>RHF_OK\<close>.  After \<^verbatim>\<open>RHF_InsertRecord\<close>
  returns, every page that was in the file has the pin count it had, and a page that the
  call allocated has pin count 0: no record operation returns with a page still fixed.
\<close>

theorem record_operations_hold_no_page:
  "(RHF_GetRecord st fd rid recordBuf len = Returns (c1, b1, l1, s1)
      \<longrightarrow> s1 = st \<and> (c1 = RHF_INVALIDRID \<or> c1 = RHF_NORECORD \<longrightarrow> b1 = recordBuf \<and> l1 = len))
   \<and> (RHF_DeleteRecord st fd rid = Returns (c2, s2)
      \<longrightarrow> pf_pins s2 = pf_pins st \<and> (c2 = RHF_INVALIDRID \<or> c2 = RHF_NORECORD \<longrightarrow> s2 = st))
   \<and> (RHF_InsertRecord st fd recordData len' rid' = Returns (c3, r3, s3)
      \<longrightarrow> (\<forall>q < length (pf_pages s3).
             pf_pins s3 q = (if q < length (pf_pages st) then pf_pins st q else 0)))"
  using RHF_GetRecord_state[of st fd rid recordBuf len c1 b1 l1 s1]
    RHF_GetRecord_error_outputs[of st fd rid recordBuf len c1 b1 l1 s1]
    RHF_DeleteRecord_pins[of st fd rid c2 s2]
    RHF_DeleteRecord_error_state[of st fd rid c2 s2]
    RHF_InsertRecord_pins[of st fd recordData len' rid' c3 r3 s3]
  by auto

theorem record_operations_hold_no_page_witness:
  "(\<exists>s. RHF_GetRecord two_records 0 \<lparr>pageNum = 0, slotNum = 7\<rparr> (\<lambda>_. 0) 0
          = Returns (RHF_INVALIDRID, (\<lambda>_. 0), 0, s) \<and> s = two_records)
   \<and> (\<exists>s. RHF_DeleteRecord two_records 0 \<lparr>pageNum = 0, slotNum = 7\<rparr> = Returns (RHF_INVALIDRID, s)
          \<and> s = two_records)
   \<and> (\<exists>r s. RHF_InsertRecord two_records 0 [4, 5, 6] 3 \<lparr>pageNum = 0, slotNum = 0\<rparr>
          = Returns (RHF_OK, r, s) \<and> length (pf_pages s) = 1 \<and> pf_pins s 0 = 0)
   \<and> (\<exists>r s. RHF_InsertRecord empty_file 0 [4, 5, 6] 3 \<lparr>pageNum = 0, slotNum = 0\<rparr>
          = Returns (RHF_OK, r, s) \<and> length (pf_pages s) = 1 \<and> pf_pins s 0 = 0)"
proof -
  have g: "\<exists>s. RHF_GetRecord two_records 0 \<lparr>pageNum = 0, slotNum = 7\<rparr> (\<lambda>_. 0) 0
          = Returns (RHF_INVALIDRID, (\<lambda>_. 0), 0, s)"
    by (simp add: two_records_def rhf_eval)
  have d: "\<exists>s. RHF_DeleteRecord two_records 0 \<lparr>pageNum = 0, slotNum = 7\<rparr> = Returns (RHF_INVALIDRID, s)"
    by (simp add: two_records_def rhf_eval)
  have i: "\<exists>r s. RHF_InsertRecord two_records 0 [4, 5, 6] 3 \<lparr>pageNum = 0, slotNum = 0\<rparr>
          = Returns (RHF_OK, r, s) \<and> length (pf_pages s) = 1"
    by (simp add: two_records_def rhf_eval)
  have j: "\<exists>r s. RHF_InsertRecord empty_file 0 [4, 5, 6] 3 \<lparr>pageNum = 0, slotNum = 0\<rparr>
          = Returns (RHF_OK, r, s) \<and> length (pf_pages s) = 1"
    by (simp add: rhf_eval)
  from g obtain sg where sg: "RHF_GetRecord two_records 0 \<lparr>pageNum = 0, slotNum = 7\<rparr> (\<lambda>_. 0) 0
          = Returns (RHF_INVALIDRID, (\<lambda>_. 0), 0, sg)" ..
  from d obtain sd where sd: "RHF_DeleteRecord two_records 0 \<lparr>pageNum = 0, slotNum = 7\<rparr>
          = Returns (RHF_INVALIDRID, sd)" ..
  from i obtain ri si where si: "RHF_InsertRecord two_records 0 [4, 5, 6] 3 \<lparr>pageNum = 0, slotNum = 0\<rparr>
          = Returns (RHF_OK, ri, si)" "length (pf_pages si) = 1" by blast
  from j obtain rj sj where sj: "RHF_InsertRecord empty_file 0 [4, 5, 6] 3 \<lparr>pageNum = 0, slotNum = 0\<rparr>
          = Returns (RHF_OK, rj, sj)" "length (pf_pages sj) = 1" by blast
  have e: "length (pf_pages empty_file) = 0" by (simp add: empty_file_def)
  from record_operations_hold_no_page[of two_records 0 "\<lparr>pageNum = 0, slotNum = 7\<rparr>" "\<lambda>_. 0" 0
         RHF_INVALIDRID "\<lambda>_. 0" 0 sg RHF_INVALIDRID sd "[4, 5, 6]" 3 "\<lparr>pageNum = 0, slotNum = 0\<rparr>"
         RHF_OK ri si]
       record_operations_hold_no_page[of empty_file 0 "\<lparr>pageNum = 0, slotNum = 7\<rparr>" "\<lambda>_. 0" 0
         RHF_INVALIDRID "\<lambda>_. 0" 0 sg RHF_INVALIDRID sd "[4, 5, 6]" 3 "\<lparr>pageNum = 0, slotNum = 0\<rparr>"
         RHF_OK rj sj]
       sg sd si sj e
  show ?thesis by (simp add: two_records_facts)
qed

section \<open>The page chosen by an insert\<close>


lemma rhf_InitPage_fields:
  "numSlots (rhf_InitPage pg) = 0" "freeSpacePtr (rhf_InitPage pg) = PF_PAGE_SIZE"
  "nextFreeSlot (rhf_InitPage pg) = - 1"
  by (simp_all add: rhf_InitPage_def numSlots_def freeSpacePtr_def nextFreeSlot_def
        rd32_wr32_same rd32_wr32_other to_int32_def)




section \<open>The pages a scan holds\<close>

lemma scan_get_page_Inl:
  assumes "scan_get_page st scan = Inl e"
  shows "page_is_fixed scan = 0" and "e \<noteq> RHF_OK"
  using assms
  by (auto simp: scan_get_page_def PF_GetNextPage_def pf_fix_def Let_def
           split: if_splits sum.splits)

lemma scan_get_page_Inr:
  assumes "scan_get_page st scan = Inr (st1, scan1)" and "scan_ok st scan"
  shows "page_is_fixed scan1 = 1" and "scan_fd scan1 = pf_fd st1"
    and "pageBuf scan1 = Some (currentPage scan1)" and "buf_valid st1 (currentPage scan1)"
    and "pf_pins st1 p + scan_pins scan p = pf_pins st p + scan_pins scan1 p"
    and "pf_pages st1 = pf_pages st" and "pf_dirty st1 = pf_dirty st" and "pf_fd st1 = pf_fd st"
    and "scan_fd scan1 = scan_fd scan"
proof -
  show "page_is_fixed scan1 = 1" and "scan_fd scan1 = pf_fd st1"
    and "pageBuf scan1 = Some (currentPage scan1)" and "buf_valid st1 (currentPage scan1)"
    and "pf_pages st1 = pf_pages st" and "pf_dirty st1 = pf_dirty st" and "pf_fd st1 = pf_fd st"
    and "scan_fd scan1 = scan_fd scan"
    using assms
    by (auto simp: scan_get_page_def scan_ok_def buf_valid_def PF_GetNextPage_def pf_fix_def
             Let_def split: if_splits sum.splits)
  show "pf_pins st1 p + scan_pins scan p = pf_pins st p + scan_pins scan1 p"
    using assms
    by (auto simp: scan_get_page_def scan_ok_def scan_pins_def PF_GetNextPage_def pf_fix_def
             Let_def split: if_splits sum.splits)
qed

lemma scan_unfix:
  assumes "page_is_fixed scan1 = 1" and "scan_fd scan1 = pf_fd st1"
    and "buf_valid st1 (currentPage scan1)"
  shows "\<exists>st2. PF_UnfixPage st1 (scan_fd scan1) (currentPage scan1) False = Inr st2
      \<and> pf_pages st2 = pf_pages st1 \<and> pf_dirty st2 = pf_dirty st1 \<and> pf_fd st2 = pf_fd st1
      \<and> (\<forall>p. pf_pins st2 p + scan_pins scan1 p = pf_pins st1 p)"
  using assms
  by (auto simp: PF_UnfixPage_def buf_valid_def scan_pins_def)

lemma scan_next_sound:
  assumes "scan_ok st scan"
    and "RHF_GetNextRecord st scan recordBuf len rid = Returns (c, scan', b, l, r, s)"
  shows "scan_ok s scan' \<and> (\<forall>p. pf_pins s p + scan_pins scan p = pf_pins st p + scan_pins scan' p)
       \<and> (c = RHF_OK \<longrightarrow> page_is_fixed scan' = 1) \<and> (c \<noteq> RHF_OK \<longrightarrow> page_is_fixed scan' = 0)
       \<and> pf_pages s = pf_pages st \<and> pf_dirty s = pf_dirty st \<and> scan_fd scan' = scan_fd scan"
  using assms
proof (induction st scan recordBuf len rid arbitrary: c scan' b l r s rule: RHF_GetNextRecord.induct)
  case (1 st scan recordBuf len rid)
  note ok = "1.prems"(1) and ret = "1.prems"(2)
  show ?case
  proof (cases "scan_get_page st scan")
    case (Inl e)
    from ret Inl have "c = e" "scan' = scan" "s = st"
      by (simp_all add: RHF_GetNextRecord.simps[of st scan recordBuf len rid])
    with scan_get_page_Inl[OF Inl] ok show ?thesis
      by (simp add: scan_ok_def)
  next
    case (Inr x)
    obtain st1 scan1 where x: "x = (st1, scan1)" by (cases x)
    have g: "scan_get_page st scan = Inr (st1, scan1)" using Inr x by simp
    note gp = scan_get_page_Inr[OF g ok]
    let ?pg = "get_page st1 (currentPage scan1)"
    show ?thesis
    proof (cases "numSlots ?pg \<le> currentSlot scan1")
      case True
      from scan_unfix[OF gp(1) gp(2) gp(4)] obtain st2 where
        un: "PF_UnfixPage st1 (scan_fd scan1) (currentPage scan1) False = Inr st2"
        and st2: "pf_pages st2 = pf_pages st1" "pf_dirty st2 = pf_dirty st1"
          "\<forall>p. pf_pins st2 p + scan_pins scan1 p = pf_pins st1 p"
        by blast
      from ret g gp(3) gp(4) True un
      have rec: "RHF_GetNextRecord st2 (scan1\<lparr>page_is_fixed := 0\<rparr>) recordBuf len rid
                   = Returns (c, scan', b, l, r, s)"
        by (simp add: RHF_GetNextRecord.simps[of st scan recordBuf len rid])
      have ok2: "scan_ok st2 (scan1\<lparr>page_is_fixed := 0\<rparr>)" by (simp add: scan_ok_def)
      from "1.IH"(1)[OF g refl gp(3) gp(4) refl True un ok2 rec]
      have ih: "scan_ok s scan'"
        "\<forall>p. pf_pins s p + scan_pins (scan1\<lparr>page_is_fixed := 0\<rparr>) p = pf_pins st2 p + scan_pins scan' p"
        "c = RHF_OK \<longrightarrow> page_is_fixed scan' = 1" "c \<noteq> RHF_OK \<longrightarrow> page_is_fixed scan' = 0"
        "pf_pages s = pf_pages st2" "pf_dirty s = pf_dirty st2" "scan_fd scan' = scan_fd scan1"
        by simp_all
      have pins: "pf_pins s p + scan_pins scan p = pf_pins st p + scan_pins scan' p" for p
      proof -
        have "pf_pins s p = pf_pins st2 p + scan_pins scan' p"
          using ih(2) by (simp add: scan_pins_def)
        moreover have "pf_pins st2 p + scan_pins scan1 p = pf_pins st1 p" using st2(3) by simp
        moreover note gp(5)[of p]
        ultimately show ?thesis by simp
      qed
      from ih pins st2 gp show ?thesis by simp
    next
      case False
      show ?thesis
      proof (cases "slot_in_page (currentSlot scan1)")
        case no: False
        with ret g gp(3) gp(4) False show ?thesis
          by (simp add: RHF_GetNextRecord.simps[of st scan recordBuf len rid])
      next
        case sl: True
        let ?sn = "currentSlot scan1"
        let ?scan2 = "scan1\<lparr>currentSlot := ?sn + 1\<rparr>"
        have ok2: "scan_ok st1 ?scan2" using gp by (simp add: scan_ok_def)
        have sp: "scan_pins ?scan2 = scan_pins scan1" by (simp add: scan_pins_def fun_eq_iff)
        show ?thesis
        proof (cases "recordLength ?pg ?sn \<noteq> - 1")
          case True
          with ret g gp(3) gp(4) False sl
          have "c = RHF_OK \<and> scan' = ?scan2 \<and> s = st1"
            by (simp add: RHF_GetNextRecord.simps[of st scan recordBuf len rid] Let_def
                  split: if_splits)
          with ok2 sp gp show ?thesis by simp
        next
          case del: False
          from ret g gp(3) gp(4) False sl del
          have rec: "RHF_GetNextRecord st1 ?scan2 recordBuf len rid = Returns (c, scan', b, l, r, s)"
            by (simp add: RHF_GetNextRecord.simps[of st scan recordBuf len rid] Let_def)
          from "1.IH"(2)[OF g refl gp(3) gp(4) refl False sl refl refl del ok2 rec]
          have ih: "scan_ok s scan'"
            "\<forall>p. pf_pins s p + scan_pins ?scan2 p = pf_pins st1 p + scan_pins scan' p"
            "c = RHF_OK \<longrightarrow> page_is_fixed scan' = 1" "c \<noteq> RHF_OK \<longrightarrow> page_is_fixed scan' = 0"
            "pf_pages s = pf_pages st1" "pf_dirty s = pf_dirty st1" "scan_fd scan' = scan_fd scan1"
            by simp_all
          have pins: "pf_pins s p + scan_pins scan p = pf_pins st p + scan_pins scan' p" for p
          proof -
            have "pf_pins s p + scan_pins scan1 p = pf_pins st1 p + scan_pins scan' p"
              using ih(2) sp by simp
            with gp(5)[of p] show ?thesis by simp
          qed
          from ih pins gp show ?thesis by simp
        qed
      qed
    qed
  qed
qed


lemma RHF_EndScan_sound:
  assumes "scan_ok st scan" and "RHF_EndScan st scan = (c, scan', s)"
  shows "c = RHF_OK \<and> page_is_fixed scan' = 0
       \<and> (\<forall>p. pf_pins s p + scan_pins scan p = pf_pins st p)
       \<and> pf_pages s = pf_pages st \<and> pf_dirty s = pf_dirty st"
proof (cases "page_is_fixed scan = 0")
  case True
  with assms(2) show ?thesis by (auto simp: RHF_EndScan_def scan_pins_def)
next
  case False
  with assms(1) have f: "page_is_fixed scan = 1" "scan_fd scan = pf_fd st"
    "buf_valid st (currentPage scan)"
    by (auto simp: scan_ok_def)
  from scan_unfix[OF f] obtain st2 where
    "PF_UnfixPage st (scan_fd scan) (currentPage scan) False = Inr st2"
    "pf_pages st2 = pf_pages st" "pf_dirty st2 = pf_dirty st"
    "\<forall>p. pf_pins st2 p + scan_pins scan p = pf_pins st p"
    by blast
  with assms(2) False show ?thesis by (auto simp: RHF_EndScan_def)
qed

text \<open>
  C8.  \<open>scan_pins scan\<close> is what a scan holds: one pin on \<open>currentPage\<close> while
  \<open>page_is_fixed\<close> is set, nothing otherwise, so never more than one page.  For a scan
  whose fixed page, if it has one, is fixed in the pool (\<open>scan_ok\<close>, which
  \<^verbatim>\<open>RHF_StartScan\<close> establishes and \<^verbatim>\<open>RHF_GetNextRecord\<close> keeps): whenever
  \<^verbatim>\<open>RHF_GetNextRecord\<close> returns, the pin counts of the pool have changed by exactly what
  the scan holds after the call in place of what it held before, so the page it held
  is unfixed when it has moved on; it holds a page when it returns \<^verbatim>\<open>RHF_OK\<close> and none when
  it returns anything else, \<^verbatim>\<open>RHF_EOF\<close> included.  \<^verbatim>\<open>RHF_EndScan\<close> returns \<^verbatim>\<open>RHF_OK\<close>, gives
  back the pin the scan held and leaves \<open>page_is_fixed\<close> clear.
\<close>

theorem scan_fixes_at_most_one_page:
  assumes "scan_ok st scan"
  shows "(RHF_GetNextRecord st scan recordBuf len rid = Returns (c, scan', b, l, r, s)
            \<longrightarrow> scan_ok s scan'
              \<and> (\<forall>p. pf_pins s p + scan_pins scan p = pf_pins st p + scan_pins scan' p)
              \<and> (c = RHF_OK \<longrightarrow> page_is_fixed scan' = 1)
              \<and> (c \<noteq> RHF_OK \<longrightarrow> page_is_fixed scan' = 0))
       \<and> (RHF_EndScan st scan = (c2, scan2, s2)
            \<longrightarrow> c2 = RHF_OK \<and> page_is_fixed scan2 = 0
              \<and> (\<forall>p. pf_pins s2 p + scan_pins scan p = pf_pins st p)
              \<and> (\<forall>p. scan_pins scan2 p = 0))
       \<and> (RHF_StartScan fd scan0 = (c0, scan1)
            \<longrightarrow> c0 = RHF_OK \<and> page_is_fixed scan1 = 0 \<and> scan_ok st scan1
              \<and> (\<forall>p. scan_pins scan1 p = 0))
       \<and> (\<forall>p q. scan_pins scan p \<le> 1 \<and> (scan_pins scan p = 1 \<and> scan_pins scan q = 1 \<longrightarrow> p = q))"
proof -
  have a: "scan_ok s scan'
              \<and> (\<forall>p. pf_pins s p + scan_pins scan p = pf_pins st p + scan_pins scan' p)
              \<and> (c = RHF_OK \<longrightarrow> page_is_fixed scan' = 1)
              \<and> (c \<noteq> RHF_OK \<longrightarrow> page_is_fixed scan' = 0)"
    if "RHF_GetNextRecord st scan recordBuf len rid = Returns (c, scan', b, l, r, s)"
    using scan_next_sound[OF assms that] by simp
  have e: "c2 = RHF_OK \<and> page_is_fixed scan2 = 0
              \<and> (\<forall>p. pf_pins s2 p + scan_pins scan p = pf_pins st p)
              \<and> (\<forall>p. scan_pins scan2 p = 0)"
    if "RHF_EndScan st scan = (c2, scan2, s2)"
    using RHF_EndScan_sound[OF assms that] by (simp add: scan_pins_def)
  have b: "c0 = RHF_OK \<and> page_is_fixed scan1 = 0 \<and> scan_ok st scan1 \<and> (\<forall>p. scan_pins scan1 p = 0)"
    if "RHF_StartScan fd scan0 = (c0, scan1)"
    using that by (auto simp: RHF_StartScan_def scan_ok_def scan_pins_def)
  have o: "\<forall>p q. scan_pins scan p \<le> 1 \<and> (scan_pins scan p = 1 \<and> scan_pins scan q = 1 \<longrightarrow> p = q)"
    by (auto simp: scan_pins_def split: if_splits)
  from a e b o show ?thesis by blast
qed

lemma get_page_pins_update: "get_page (st\<lparr>pf_pins := f\<rparr>) p = get_page st p"
  by (simp add: get_page_def)

lemma two_records_slots:
  "nextFreeSlot (get_page two_records 0) = - 1" "freeSpacePtr (get_page two_records 0) = 4093"
  "recordOffset (get_page two_records 0) 0 = 4095" "recordLength (get_page two_records 0) 0 = 1"
  "recordOffset (get_page two_records 0) 1 = 4093" "recordLength (get_page two_records 0) 1 = 2"
  by (simp_all add: two_records_def rhf_eval)

lemmas scan_eval = RHF_StartScan_def RHF_EndScan_def RHF_GetNextRecord.simps
  scan_get_page_def buf_valid_def PF_GetNextPage_def PF_UnfixPage_def pf_fix_def pinned_count_def
  slot_in_page_def in_page_def Let_def get_page_pins_update

theorem scan_fixes_at_most_one_page_witness:
  "\<exists>sc1 b1 r1 s1 sc2 b2 r2 s2 sc3 b3 l3 r3 s3.
      RHF_GetNextRecord two_records new_scan (\<lambda>_. 0) 0 \<lparr>pageNum = 0, slotNum = 0\<rparr>
        = Returns (RHF_OK, sc1, b1, 1, r1, s1)
      \<and> page_is_fixed sc1 = 1 \<and> pf_pins s1 0 = 1
      \<and> RHF_GetNextRecord s1 sc1 b1 1 r1 = Returns (RHF_OK, sc2, b2, 2, r2, s2)
      \<and> page_is_fixed sc2 = 1 \<and> pf_pins s2 0 = 1
      \<and> RHF_GetNextRecord s2 sc2 b2 2 r2 = Returns (RHF_EOF, sc3, b3, l3, r3, s3)
      \<and> page_is_fixed sc3 = 0 \<and> pf_pins s3 0 = 0
      \<and> fst (RHF_EndScan s2 sc2) = RHF_OK \<and> pf_pins (snd (snd (RHF_EndScan s2 sc2))) 0 = 0"
proof -
  have ok0: "scan_ok two_records new_scan" by (simp add: scan_ok_def new_scan_def scan_eval)
  have "\<exists>sc1 b1 r1 s1 sc2 b2 r2 s2 sc3 b3 l3 r3 s3.
      RHF_GetNextRecord two_records new_scan (\<lambda>_. 0) 0 \<lparr>pageNum = 0, slotNum = 0\<rparr>
        = Returns (RHF_OK, sc1, b1, 1, r1, s1)
      \<and> RHF_GetNextRecord s1 sc1 b1 1 r1 = Returns (RHF_OK, sc2, b2, 2, r2, s2)
      \<and> RHF_GetNextRecord s2 sc2 b2 2 r2 = Returns (RHF_EOF, sc3, b3, l3, r3, s3)
      \<and> currentPage sc1 = 0 \<and> currentPage sc2 = 0"
    by (simp add: new_scan_def scan_eval two_records_facts two_records_slots)
  then obtain sc1 b1 r1 s1 sc2 b2 r2 s2 sc3 b3 l3 r3 s3 where
    n1: "RHF_GetNextRecord two_records new_scan (\<lambda>_. 0) 0 \<lparr>pageNum = 0, slotNum = 0\<rparr>
        = Returns (RHF_OK, sc1, b1, 1, r1, s1)"
    and n2: "RHF_GetNextRecord s1 sc1 b1 1 r1 = Returns (RHF_OK, sc2, b2, 2, r2, s2)"
    and n3: "RHF_GetNextRecord s2 sc2 b2 2 r2 = Returns (RHF_EOF, sc3, b3, l3, r3, s3)"
    and cp: "currentPage sc1 = 0" "currentPage sc2 = 0"
    by blast
  have p0: "pf_pins two_records 0 = 0" "scan_pins new_scan 0 = 0"
    by (simp_all add: two_records_facts scan_pins_def new_scan_def scan_eval)
  from scan_fixes_at_most_one_page[OF ok0, of "\<lambda>_. 0" 0 "\<lparr>pageNum = 0, slotNum = 0\<rparr>"
         RHF_OK sc1 b1 1 r1 s1] n1
  have t1: "scan_ok s1 sc1" "page_is_fixed sc1 = 1"
    "pf_pins s1 0 + scan_pins new_scan 0 = pf_pins two_records 0 + scan_pins sc1 0"
    by simp_all
  from scan_fixes_at_most_one_page[OF t1(1), of b1 1 r1 RHF_OK sc2 b2 2 r2 s2] n2
  have t2: "scan_ok s2 sc2" "page_is_fixed sc2 = 1"
    "pf_pins s2 0 + scan_pins sc1 0 = pf_pins s1 0 + scan_pins sc2 0"
    by simp_all
  from scan_fixes_at_most_one_page[OF t2(1), of b2 2 r2 RHF_EOF sc3 b3 l3 r3 s3] n3
  have t3: "page_is_fixed sc3 = 0"
    "pf_pins s3 0 + scan_pins sc2 0 = pf_pins s2 0 + scan_pins sc3 0"
    by simp_all
  from scan_fixes_at_most_one_page[OF t2(1), of _ _ _ _ _ _ _ _ _
         "fst (RHF_EndScan s2 sc2)" "fst (snd (RHF_EndScan s2 sc2))" "snd (snd (RHF_EndScan s2 sc2))"]
  have t4: "fst (RHF_EndScan s2 sc2) = RHF_OK"
    "pf_pins (snd (snd (RHF_EndScan s2 sc2))) 0 + scan_pins sc2 0 = pf_pins s2 0"
    by simp_all
  have sp: "scan_pins sc1 0 = 1" "scan_pins sc2 0 = 1" "scan_pins sc3 0 = 0"
    using t1(2) t2(2) t3(1) cp by (simp_all add: scan_pins_def)
  have q1: "pf_pins s1 0 = 1" using t1(3) sp p0 by simp
  have q2: "pf_pins s2 0 = 1" using t2(3) sp q1 by simp
  have q3: "pf_pins s3 0 = 0" using t3(2) sp q2 by simp
  have q4: "pf_pins (snd (snd (RHF_EndScan s2 sc2))) 0 = 0" using t4(2) sp q2 by simp
  show ?thesis
    apply (rule exI[of _ sc1], rule exI[of _ b1], rule exI[of _ r1], rule exI[of _ s1])
    apply (rule exI[of _ sc2], rule exI[of _ b2], rule exI[of _ r2], rule exI[of _ s2])
    apply (rule exI[of _ sc3], rule exI[of _ b3], rule exI[of _ l3], rule exI[of _ r3])
    apply (rule exI[of _ s3])
    apply (intro conjI)
              apply (rule n1)
             apply (rule t1(2))
            apply (rule q1)
           apply (rule n2)
          apply (rule t2(2))
         apply (rule q2)
        apply (rule n3)
       apply (rule t3(1))
      apply (rule q3)
     apply (rule t4(1))
    apply (rule q4)
    done
qed

section \<open>Files whose records fit their pages\<close>

text \<open>
  The record layer on files that it has built itself from records of at most 4076 bytes,
  with deletes of stored records only: insert, get, delete and scan behave as operations
  on a map from RIDs to records.
\<close>

text \<open>
  The page after lines 121 to 126 of rhf.c, for a slot \<open>sn\<close> that ends below the place
  of the record: the header and the slot hold what the code assigned, the other slots and
  the bytes outside of the header, the slot and the record are unchanged, and the record
  is in its place.
\<close>

lemma insert_page_fields:
  fixes pgm :: page and recordData :: "byte list"
  assumes sn: "0 \<le> sn" and fit: "12 + 8 * sn + 8 \<le> freeSpacePtr pgm - len"
    and len: "0 \<le> len" and top: "freeSpacePtr pgm \<le> PF_PAGE_SIZE"
  defines "pg' \<equiv> memcpy_to_page
         (wr32 (wr32 (wr32 pgm 4 (freeSpacePtr pgm - len)) (GET_SLOT sn)
            (to_int32 (freeSpacePtr pgm - len))) (GET_SLOT sn + 4) len)
         (nat (to_int32 (freeSpacePtr pgm - len))) recordData (nat len)"
  shows "freeSpacePtr pg' = freeSpacePtr pgm - len"
    and "recordOffset pg' sn = freeSpacePtr pgm - len" and "recordLength pg' sn = len"
    and "numSlots pg' = numSlots pgm" and "nextFreeSlot pg' = nextFreeSlot pgm"
    and "\<And>k. 0 \<le> k \<Longrightarrow> k \<noteq> sn \<Longrightarrow> 12 + 8 * k + 8 \<le> freeSpacePtr pgm - len \<Longrightarrow>
           recordOffset pg' k = recordOffset pgm k \<and> recordLength pg' k = recordLength pgm k"
    and "\<And>i. int i < freeSpacePtr pgm - len \<Longrightarrow> \<not> (4 \<le> i \<and> i < 8)
           \<Longrightarrow> \<not> (GET_SLOT sn \<le> i \<and> i < GET_SLOT sn + 8) \<Longrightarrow> pg' i = pgm i"
    and "\<And>i. freeSpacePtr pgm \<le> int i \<Longrightarrow> pg' i = pgm i"
    and "nat len \<le> length recordData \<Longrightarrow>
           bytes_at pg' (nat (freeSpacePtr pgm - len)) (nat len) = take (nat len) recordData"
proof -
  let ?F = "freeSpacePtr pgm"
  define a where "a = nat (?F - len)"
  define G where "G = GET_SLOT sn"
  define n where "n = nat len"
  have o: "to_int32 (?F - len) = ?F - len"
    using sn fit len top by (intro to_int32_id) auto
  have l: "to_int32 len = len"
    using sn fit len top by (intro to_int32_id) auto
  have g: "12 \<le> G" "G + 8 \<le> a"
    using sn fit by (simp_all add: GET_SLOT_def G_def a_def)
  have pg': "pg' = memcpy_to_page (wr32 (wr32 (wr32 pgm 4 (?F - len)) G (?F - len)) (G + 4) len)
                     a recordData n"
    by (simp add: pg'_def o a_def G_def n_def)
  show "freeSpacePtr pg' = ?F - len"
    using g by (simp add: pg' o freeSpacePtr_def[of "memcpy_to_page _ _ _ _"]
          rd32_memcpy_other rd32_wr32_other rd32_wr32_same)
  show "recordOffset pg' sn = ?F - len"
    using g by (simp add: pg' o recordOffset_def G_def[symmetric] rd32_memcpy_other
          rd32_wr32_other rd32_wr32_same)
  show "recordLength pg' sn = len"
    using g by (simp add: pg' l recordLength_def G_def[symmetric] rd32_memcpy_other
          rd32_wr32_other rd32_wr32_same)
  show "numSlots pg' = numSlots pgm"
    using g by (simp add: pg' numSlots_def rd32_memcpy_other rd32_wr32_other)
  show "nextFreeSlot pg' = nextFreeSlot pgm"
    using g by (simp add: pg' nextFreeSlot_def rd32_memcpy_other rd32_wr32_other)
  show "recordOffset pg' k = recordOffset pgm k \<and> recordLength pg' k = recordLength pgm k"
    if "0 \<le> k" "k \<noteq> sn" "12 + 8 * k + 8 \<le> ?F - len" for k
  proof -
    define K where "K = GET_SLOT k"
    have gk: "12 \<le> K" "K + 8 \<le> a"
      using that by (simp_all add: GET_SLOT_def K_def a_def)
    have ap: "K + 8 \<le> G \<or> G + 8 \<le> K"
      using GET_SLOT_apart[OF that(1) sn that(2)] by (simp add: K_def G_def)
    from ap gk g show ?thesis
      by (auto simp: pg' recordOffset_def recordLength_def K_def[symmetric]
            rd32_memcpy_other rd32_wr32_other)
  qed
  show "pg' i = pgm i"
    if "int i < ?F - len" "\<not> (4 \<le> i \<and> i < 8)" "\<not> (GET_SLOT sn \<le> i \<and> i < GET_SLOT sn + 8)" for i
  proof -
    have "i < a" using that(1) by (simp add: a_def)
    with that(2,3) show ?thesis
      by (auto simp: pg' G_def[symmetric] memcpy_to_page_apply wr32_other_byte)
  qed
  show "pg' i = pgm i" if "?F \<le> int i" for i
  proof -
    have "a + n \<le> i" using that len sn fit by (simp add: a_def n_def)
    with g show ?thesis
      by (auto simp: pg' memcpy_to_page_apply wr32_other_byte)
  qed
  show "bytes_at pg' (nat (?F - len)) (nat len) = take (nat len) recordData"
    if "nat len \<le> length recordData"
    using that by (simp add: pg' a_def n_def bytes_at_memcpy_to_page)
qed

text \<open>Pages that are slotted pages.\<close>

lemma free_chain_cong:
  "(\<forall>y\<in>set ys. recordOffset pg' y = recordOffset pg y) \<Longrightarrow>
   free_chain pg' h ys = free_chain pg h ys"
  by (induction ys arbitrary: h) auto

lemma page_inv_InitPage: "page_inv (rhf_InitPage pg)"
proof -
  have "free_chain (rhf_InitPage pg) (- 1) []" by simp
  then show ?thesis
    unfolding page_inv_def live_def rhf_InitPage_fields
    by (intro conjI) (auto intro: exI[of _ "[]"])
qed

lemma slot_taken_fields:
  assumes inv: "page_inv pg"
  shows "freeSpacePtr (slot_taken pg) = freeSpacePtr pg"
    and "numSlots (slot_taken pg) = (if nextFreeSlot pg \<noteq> - 1 then numSlots pg else numSlots pg + 1)"
    and "nextFreeSlot (slot_taken pg)
           = (if nextFreeSlot pg \<noteq> - 1 then recordOffset pg (nextFreeSlot pg) else - 1)"
    and "\<And>k. 0 \<le> k \<Longrightarrow> recordOffset (slot_taken pg) k = recordOffset pg k
                    \<and> recordLength (slot_taken pg) k = recordLength pg k"
    and "\<And>i. 12 \<le> i \<Longrightarrow> slot_taken pg i = pg i"
proof -
  have n: "0 \<le> numSlots pg" "numSlots pg \<le> 510"
    using inv by (auto simp: page_inv_def)
  have t: "to_int32 (numSlots pg + 1) = numSlots pg + 1"
    using n by (intro to_int32_id) auto
  have r: "to_int32 (recordOffset pg x) = recordOffset pg x" for x
    using rd32_range[of pg "GET_SLOT x"] by (simp add: recordOffset_def to_int32_id)
  show "freeSpacePtr (slot_taken pg) = freeSpacePtr pg"
    by (simp add: slot_taken_def freeSpacePtr_def rd32_wr32_other)
  show "numSlots (slot_taken pg) = (if nextFreeSlot pg \<noteq> - 1 then numSlots pg else numSlots pg + 1)"
    using t by (simp add: slot_taken_def numSlots_def rd32_wr32_other rd32_wr32_same)
  show "nextFreeSlot (slot_taken pg)
           = (if nextFreeSlot pg \<noteq> - 1 then recordOffset pg (nextFreeSlot pg) else - 1)"
    using r by (simp add: slot_taken_def nextFreeSlot_def recordOffset_def rd32_wr32_other
          rd32_wr32_same)
  show "recordOffset (slot_taken pg) k = recordOffset pg k
                    \<and> recordLength (slot_taken pg) k = recordLength pg k" if "0 \<le> k" for k
    using GET_SLOT_ge[OF that]
    by (simp add: slot_taken_def recordOffset_def recordLength_def rd32_wr32_other)
  show "slot_taken pg i = pg i" if "12 \<le> i" for i
    using that by (simp add: slot_taken_def wr32_other_byte)
qed

lemma bytes_at_cong:
  "(\<And>i. off \<le> i \<Longrightarrow> i < off + n \<Longrightarrow> m' i = m i) \<Longrightarrow> bytes_at m' off n = bytes_at m off n"
  by (simp add: bytes_at_def)

lemma length_bytes_at: "length (bytes_at m off n) = n"
  by (simp add: bytes_at_def)

lemma free_chain_head: "free_chain pg h xs \<Longrightarrow> h \<noteq> - 1 \<Longrightarrow> \<exists>ys. xs = h # ys"
  by (cases xs) auto

text \<open>
  An insert into a slotted page with room for the record: the page is a slotted page
  again, the slot taken was not live and now holds the record, every other slot and
  record is as before, and the accesses are inside the page.  The header follows the slot
  choice: a slot popped from the free chain, whose link becomes \<open>nextFreeSlot\<close> while
  \<open>numSlots\<close> stays, or the new slot \<open>numSlots\<close>, which is incremented.
\<close>

lemma page_insert_correct:
  fixes pg :: page and recordData :: "byte list"
  assumes inv: "page_inv pg" and fits: "record_fits pg len"
    and data: "len = int (length recordData)"
  defines "pg' \<equiv> page_insert pg recordData len" and "sn \<equiv> insert_slot pg"
  shows "page_inv pg'" and "\<not> live pg sn" and "live pg' sn"
    and "record_of pg' sn = recordData"
    and "\<And>k. k \<noteq> sn \<Longrightarrow> live pg' k = live pg k"
    and "\<And>k. live pg k \<Longrightarrow> record_of pg' k = record_of pg k"
    and "slot_in_page sn"
    and "in_page (to_int32 (freeSpacePtr (slot_taken pg) - len)) len"
    and "numSlots pg' = (if nextFreeSlot pg \<noteq> - 1 then numSlots pg else numSlots pg + 1)"
    and "nextFreeSlot pg'
           = (if nextFreeSlot pg \<noteq> - 1 then recordOffset pg (nextFreeSlot pg) else - 1)"
    and "freeSpacePtr pg' = freeSpacePtr pg - len"
    and "recordOffset pg' sn = freeSpacePtr pg - len" and "recordLength pg' sn = len"
proof -
  let ?F = "freeSpacePtr pg"
  let ?n = "numSlots pg"
  let ?m = "slot_taken pg"
  note st = slot_taken_fields[OF inv]
  from inv obtain xs where xs: "free_chain pg (nextFreeSlot pg) xs" "distinct xs"
      "\<forall>x\<in>set xs. 0 \<le> x \<and> x < ?n \<and> recordLength pg x = - 1"
    by (auto simp: page_inv_def)
  have hdr: "0 \<le> ?n" "12 + 8 * ?n \<le> ?F" "?F \<le> PF_PAGE_SIZE"
    using inv by (auto simp: page_inv_def)
  have len: "0 \<le> len" using fits by (simp add: record_fits_def)
  have room: "12 + 8 * ?n + spaceNeededForSlot pg + len \<le> ?F"
    using fits by (simp add: record_fits_def)
  have sn0: "0 \<le> sn" and snfit: "12 + 8 * sn + 8 \<le> ?F - len"
    and dead: "\<not> live pg sn" and snn: "sn < numSlots ?m"
    and nm: "numSlots ?m = (if nextFreeSlot pg \<noteq> - 1 then ?n else ?n + 1)"
    and mfit: "12 + 8 * numSlots ?m \<le> ?F - len"
  proof -
    show nm: "numSlots ?m = (if nextFreeSlot pg \<noteq> - 1 then ?n else ?n + 1)" by (rule st(2))
    have "0 \<le> sn \<and> 12 + 8 * sn + 8 \<le> ?F - len \<and> \<not> live pg sn \<and> sn < numSlots ?m"
    proof (cases "nextFreeSlot pg = - 1")
      case True
      with room hdr nm show ?thesis
        by (simp add: sn_def insert_slot_def spaceNeededForSlot_def live_def)
    next
      case False
      from free_chain_head[OF xs(1) False] obtain ys where "xs = nextFreeSlot pg # ys" ..
      with xs(3) have "0 \<le> nextFreeSlot pg" "nextFreeSlot pg < ?n"
        "recordLength pg (nextFreeSlot pg) = - 1" by simp_all
      with False room hdr nm show ?thesis
        by (simp add: sn_def insert_slot_def spaceNeededForSlot_def live_def)
    qed
    then show "0 \<le> sn" "12 + 8 * sn + 8 \<le> ?F - len" "\<not> live pg sn" "sn < numSlots ?m"
      by simp_all
    show "12 + 8 * numSlots ?m \<le> ?F - len"
      using room nm by (simp add: spaceNeededForSlot_def split: if_splits)
  qed
  have pg': "pg' = memcpy_to_page
         (wr32 (wr32 (wr32 ?m 4 (freeSpacePtr ?m - len)) (GET_SLOT sn)
            (to_int32 (freeSpacePtr ?m - len))) (GET_SLOT sn + 4) len)
         (nat (to_int32 (freeSpacePtr ?m - len))) recordData (nat len)"
    by (simp add: pg'_def page_insert_def sn_def)
  note f = insert_page_fields[where sn=sn and pgm="?m" and len=len and recordData=recordData, folded pg', unfolded st(1),
      OF sn0 snfit len hdr(3)]
  have n': "numSlots pg' = numSlots ?m" by (rule f(4))
  show "numSlots pg' = (if nextFreeSlot pg \<noteq> - 1 then numSlots pg else numSlots pg + 1)"
    unfolding n' by (rule nm)
  show "nextFreeSlot pg'
      = (if nextFreeSlot pg \<noteq> - 1 then recordOffset pg (nextFreeSlot pg) else - 1)"
    unfolding f(5) by (rule st(3))
  show "freeSpacePtr pg' = freeSpacePtr pg - len" by (rule f(1))
  show "recordOffset pg' sn = freeSpacePtr pg - len" by (rule f(2))
  show "recordLength pg' sn = len" by (rule f(3))
  have o: "to_int32 (?F - len) = ?F - len"
    using sn0 snfit len hdr by (intro to_int32_id) auto
  show "\<not> live pg sn" by (rule dead)
  show lsn: "live pg' sn"
    using sn0 snn len by (simp add: live_def n' f(3))
  show "slot_in_page sn"
    using sn0 snfit len hdr by (simp add: slot_in_page_def)
  show "in_page (to_int32 (freeSpacePtr ?m - len)) len"
    using sn0 snfit len hdr by (simp add: in_page_def st(1) o)
  have slot: "recordOffset pg' k = recordOffset pg k \<and> recordLength pg' k = recordLength pg k"
    if "0 \<le> k" "k \<noteq> sn" "k < numSlots ?m" for k
  proof -
    have "12 + 8 * k + 8 \<le> ?F - len" using that mfit by simp
    from f(6)[OF that(1,2) this] st(4)[OF that(1)] show ?thesis by simp
  qed
  show lk: "live pg' k = live pg k" if "k \<noteq> sn" for k
  proof (cases "0 \<le> k \<and> k < numSlots ?m")
    case True
    then have "k < ?n" using that nm sn_def by (auto simp: insert_slot_def split: if_splits)
    with True slot[of k] that show ?thesis by (simp add: live_def n')
  next
    case False
    then have "\<not> (0 \<le> k \<and> k < ?n)" using nm by (auto split: if_splits)
    with False show ?thesis by (auto simp add: live_def n')
  qed
  have high: "pg' i = pg i" if "?F \<le> int i" for i
  proof -
    have "12 \<le> i" using that hdr by simp
    with f(8)[OF that] st(5)[of i] show ?thesis by simp
  qed
  show rk: "record_of pg' k = record_of pg k" if "live pg k" for k
  proof -
    have k: "0 \<le> k" "k \<noteq> sn" "k < numSlots ?m"
      using that dead nm by (auto simp: live_def split: if_splits)
    from inv that have b: "?F \<le> recordOffset pg k" by (auto simp: page_inv_def)
    have "bytes_at pg' (nat (recordOffset pg k)) (nat (recordLength pg k))
        = bytes_at pg (nat (recordOffset pg k)) (nat (recordLength pg k))"
      using b by (intro bytes_at_cong high) simp
    with slot[OF k] show ?thesis by (simp add: record_of_def)
  qed
  show "record_of pg' sn = recordData"
    using f(9) data by (simp add: record_of_def f(2) f(3))
  show "page_inv pg'"
    unfolding page_inv_def
  proof (intro conjI allI impI)
    show "0 \<le> numSlots pg'" using sn0 snn by (simp add: n')
    show "12 + 8 * numSlots pg' \<le> freeSpacePtr pg'" using mfit by (simp add: n' f(1))
    show "freeSpacePtr pg' \<le> PF_PAGE_SIZE" using len hdr by (simp add: f(1))
  next
    fix k assume l: "live pg' k"
    show "0 \<le> recordLength pg' k" "freeSpacePtr pg' \<le> recordOffset pg' k"
      "recordOffset pg' k + recordLength pg' k \<le> PF_PAGE_SIZE"
    proof -
      have "0 \<le> recordLength pg' k \<and> freeSpacePtr pg' \<le> recordOffset pg' k
          \<and> recordOffset pg' k + recordLength pg' k \<le> PF_PAGE_SIZE"
      proof (cases "k = sn")
        case True
        with len hdr show ?thesis by (simp add: f(1) f(2) f(3))
      next
        case False
        with l lk have lo: "live pg k" by simp
        then have k: "0 \<le> k" "k < numSlots ?m" using nm by (auto simp: live_def split: if_splits)
        from inv lo have "0 \<le> recordLength pg k \<and> ?F \<le> recordOffset pg k
          \<and> recordOffset pg k + recordLength pg k \<le> PF_PAGE_SIZE"
          by (auto simp: page_inv_def)
        with slot[OF k(1) False k(2)] len show ?thesis by (simp add: f(1))
      qed
      then show "0 \<le> recordLength pg' k" "freeSpacePtr pg' \<le> recordOffset pg' k"
        "recordOffset pg' k + recordLength pg' k \<le> PF_PAGE_SIZE" by simp_all
    qed
  next
    show "\<exists>ys. free_chain pg' (nextFreeSlot pg') ys \<and> distinct ys
        \<and> (\<forall>x\<in>set ys. 0 \<le> x \<and> x < numSlots pg' \<and> recordLength pg' x = - 1)"
    proof (cases "nextFreeSlot pg = - 1")
      case True
      then have "nextFreeSlot pg' = - 1" by (simp add: f(5) st(3))
      then have "free_chain pg' (nextFreeSlot pg') []" by simp
      then show ?thesis by (intro exI[of _ "[]"]) simp
    next
      case False
      from free_chain_head[OF xs(1) False] obtain ys where ys: "xs = nextFreeSlot pg # ys" ..
      have sn: "sn = nextFreeSlot pg" using False by (simp add: sn_def insert_slot_def)
      have c: "free_chain pg (recordOffset pg sn) ys" "sn \<notin> set ys" "distinct ys"
        using xs(1,2) ys sn by simp_all
      have el: "0 \<le> y \<and> y < numSlots ?m \<and> y \<noteq> sn \<and> recordLength pg y = - 1" if "y \<in> set ys" for y
        using that xs(3) ys c(2) nm False by auto
      have "free_chain pg' (recordOffset pg sn) ys = free_chain pg (recordOffset pg sn) ys"
        using el slot by (intro free_chain_cong) auto
      with c(1) have "free_chain pg' (nextFreeSlot pg') ys"
        using False by (simp add: f(5) st(3) sn)
      moreover have "\<forall>x\<in>set ys. 0 \<le> x \<and> x < numSlots pg' \<and> recordLength pg' x = - 1"
        using el slot by (auto simp: n')
      ultimately show ?thesis using c(3) by blast
    qed
  qed
qed

text \<open>
  The delete of a live record of a slotted page: the page is a slotted page again, the
  slot is not live, every other slot and record is as before.
\<close>

lemma page_delete_correct:
  fixes pg :: page
  assumes inv: "page_inv pg" and lv: "live pg sn"
  defines "pg' \<equiv> page_delete pg sn"
  shows "page_inv pg'" and "\<not> live pg' sn"
    and "\<And>k. k \<noteq> sn \<Longrightarrow> live pg' k = live pg k"
    and "\<And>k. k \<noteq> sn \<Longrightarrow> live pg k \<Longrightarrow> record_of pg' k = record_of pg k"
    and "slot_in_page sn" and "recordOffset pg sn \<noteq> - 1"
    and "0 \<le> sn" and "sn < numSlots pg"
    and "\<And>a n. freeSpacePtr pg \<le> int a \<Longrightarrow> bytes_at pg' a n = bytes_at pg a n"
proof -
  let ?F = "freeSpacePtr pg"
  let ?n = "numSlots pg"
  show sn: "0 \<le> sn" "sn < ?n" using lv by (auto simp: live_def)
  have ln: "recordLength pg sn \<noteq> - 1" using lv by (auto simp: live_def)
  have hdr: "0 \<le> ?n" "12 + 8 * ?n \<le> ?F" "?F \<le> PF_PAGE_SIZE"
    using inv by (auto simp: page_inv_def)
  have rec: "?F \<le> recordOffset pg sn" using inv lv by (auto simp: page_inv_def)
  from inv obtain xs where xs: "free_chain pg (nextFreeSlot pg) xs" "distinct xs"
      "\<forall>x\<in>set xs. 0 \<le> x \<and> x < ?n \<and> recordLength pg x = - 1"
    by (auto simp: page_inv_def)
  have pg': "pg' = wr32 (wr32 (wr32 pg (GET_SLOT sn) (nextFreeSlot pg)) (GET_SLOT sn + 4) (- 1)) 8 sn"
    by (simp add: pg'_def page_delete_def)
  note f = delete_page_fields[OF sn, folded pg']
  show "slot_in_page sn" using sn hdr by (simp add: slot_in_page_def)
  show "recordOffset pg sn \<noteq> - 1" using rec hdr by simp
  show "\<not> live pg' sn" by (simp add: live_def f(2))
  show lk: "live pg' k = live pg k" if "k \<noteq> sn" for k
    using that f(6)[of k] by (cases "0 \<le> k") (simp_all add: live_def f(4))
  have high: "pg' i = pg i" if "?F \<le> int i" for i
  proof -
    have "GET_SLOT sn + 8 \<le> i" using that hdr sn by (simp add: GET_SLOT_def)
    moreover have "12 \<le> i" using that hdr by simp
    ultimately show ?thesis by (intro f(7)) simp_all
  qed
  show "bytes_at pg' a n = bytes_at pg a n" if "freeSpacePtr pg \<le> int a" for a n
    using that by (intro bytes_at_cong high) simp
  show "record_of pg' k = record_of pg k" if "k \<noteq> sn" "live pg k" for k
  proof -
    have k: "0 \<le> k" using that by (simp add: live_def)
    from inv that have b: "?F \<le> recordOffset pg k" by (auto simp: page_inv_def)
    have "bytes_at pg' (nat (recordOffset pg k)) (nat (recordLength pg k))
        = bytes_at pg (nat (recordOffset pg k)) (nat (recordLength pg k))"
      using b by (intro bytes_at_cong high) simp
    with f(6)[OF k that(1)] show ?thesis by (simp add: record_of_def)
  qed
  show "page_inv pg'"
    unfolding page_inv_def
  proof (intro conjI allI impI)
    show "0 \<le> numSlots pg'" "12 + 8 * numSlots pg' \<le> freeSpacePtr pg'"
      "freeSpacePtr pg' \<le> PF_PAGE_SIZE"
      using hdr by (simp_all add: f(4) f(5))
  next
    fix k assume l: "live pg' k"
    have ks: "k \<noteq> sn" using l \<open>\<not> live pg' sn\<close> by auto
    with l lk have lo: "live pg k" by simp
    then have k: "0 \<le> k" by (simp add: live_def)
    from inv lo have "0 \<le> recordLength pg k \<and> ?F \<le> recordOffset pg k
          \<and> recordOffset pg k + recordLength pg k \<le> PF_PAGE_SIZE"
      by (auto simp: page_inv_def)
    with f(6)[OF k ks] show "0 \<le> recordLength pg' k" "freeSpacePtr pg' \<le> recordOffset pg' k"
      "recordOffset pg' k + recordLength pg' k \<le> PF_PAGE_SIZE"
      by (simp_all add: f(5))
  next
    have el: "0 \<le> y \<and> y < ?n \<and> y \<noteq> sn \<and> recordLength pg y = - 1" if "y \<in> set xs" for y
      using that xs(3) ln by auto
    have "free_chain pg' (nextFreeSlot pg) xs = free_chain pg (nextFreeSlot pg) xs"
      using el f(6) by (intro free_chain_cong) auto
    with xs(1) have "free_chain pg' (nextFreeSlot pg') (sn # xs)"
      by (simp add: f(1) f(3))
    moreover have "distinct (sn # xs)" using xs(2) el by auto
    moreover have "\<forall>x\<in>set (sn # xs). 0 \<le> x \<and> x < numSlots pg' \<and> recordLength pg' x = - 1"
      using el f(6) sn by (auto simp: f(2) f(4))
    ultimately show "\<exists>ys. free_chain pg' (nextFreeSlot pg') ys \<and> distinct ys
        \<and> (\<forall>x\<in>set ys. 0 \<le> x \<and> x < numSlots pg' \<and> recordLength pg' x = - 1)"
      by blast
  qed
qed

lemma pinned_count_0: "(\<forall>p. pf_pins st p = 0) \<Longrightarrow> pinned_count st = 0"
  by (simp add: pinned_count_def)

lemma file_inv_fix:
  assumes inv: "file_inv st" and fd: "fd = pf_fd st"
    and p: "0 \<le> p" "p < int (length (pf_pages st))"
  shows "PF_GetThisPage st fd p = Inr (fix_state st p)"
  using assms pinned_count_0[of st]
  by (simp add: PF_GetThisPage_def pf_fix_def fix_state_def file_inv_def)

lemma bytes_at_memcpy_from_page:
  "bytes_at (memcpy_from_page dst pg off n) 0 n = bytes_at pg off n"
  by (simp add: bytes_at_def memcpy_from_page_def)

lemma stored_Some:
  assumes "stored st r = Some d"
  shows "0 \<le> pageNum r" and "pageNum r < int (length (pf_pages st))"
    and "live (get_page st (pageNum r)) (slotNum r)"
    and "d = record_of (get_page st (pageNum r)) (slotNum r)"
  using assms by (auto simp: stored_def split: if_splits)

subsection \<open>The three operations on the map of the records\<close>

text \<open>
  \<^verbatim>\<open>RHF_GetRecord\<close> of a stored record returns \<^verbatim>\<open>RHF_OK\<close>, the length and the bytes of the
  record, writes nothing behind them, and leaves the file as it was.
\<close>

theorem get_stored_record:
  assumes inv: "file_inv st" and r: "stored st r = Some d"
  shows "\<exists>buf'. RHF_GetRecord st (pf_fd st) r recordBuf len
           = Returns (RHF_OK, buf', int (length d), st)
         \<and> bytes_at buf' 0 (length d) = d \<and> (\<forall>i. length d \<le> i \<longrightarrow> buf' i = recordBuf i)"
proof -
  let ?p = "pageNum r"
  let ?sn = "slotNum r"
  let ?pg = "get_page st ?p"
  note s = stored_Some[OF r]
  have pinv: "page_inv ?pg"
    using inv s(1,2) by (simp add: file_inv_def get_page_def)
  have fx: "PF_GetThisPage st (pf_fd st) ?p = Inr (fix_state st ?p)"
    by (rule file_inv_fix[OF inv refl s(1,2)])
  have sn: "0 \<le> ?sn" "?sn < numSlots ?pg" using s(3) by (auto simp: live_def)
  have hdr: "0 \<le> numSlots ?pg" "12 + 8 * numSlots ?pg \<le> freeSpacePtr ?pg"
    "freeSpacePtr ?pg \<le> PF_PAGE_SIZE"
    using pinv by (auto simp: page_inv_def)
  have rec: "0 \<le> recordLength ?pg ?sn" "freeSpacePtr ?pg \<le> recordOffset ?pg ?sn"
    "recordOffset ?pg ?sn + recordLength ?pg ?sn \<le> PF_PAGE_SIZE"
    using pinv s(3) by (auto simp: page_inv_def)
  have sl: "slot_in_page ?sn" using sn hdr by (simp add: slot_in_page_def)
  have off: "recordOffset ?pg ?sn \<noteq> - 1" using rec hdr by simp
  have ip: "in_page (recordOffset ?pg ?sn) (recordLength ?pg ?sn)"
    using rec hdr by (simp add: in_page_def)
  have un: "PF_UnfixPage (fix_state st ?p) (pf_fd st) ?p False = Inr st"
    by (rule unfix_fix_state[OF _ s(1,2)]) (simp add: fix_state_def)
  have ld: "int (length d) = recordLength ?pg ?sn" "length d = nat (recordLength ?pg ?sn)"
    using rec(1) by (simp_all add: s(4) record_of_def length_bytes_at)
  let ?b = "memcpy_from_page recordBuf ?pg (nat (recordOffset ?pg ?sn)) (nat (recordLength ?pg ?sn))"
  have "RHF_GetRecord st (pf_fd st) r recordBuf len = Returns (RHF_OK, ?b, int (length d), st)"
    using sn sl off ip
    by (simp add: RHF_GetRecord_def fx get_page_fix_state un Let_def ld(1))
  moreover have "bytes_at ?b 0 (length d) = d"
    unfolding ld(2) by (simp add: bytes_at_memcpy_from_page s(4) record_of_def)
  moreover have "\<forall>i. length d \<le> i \<longrightarrow> ?b i = recordBuf i"
    by (simp add: ld(2) memcpy_from_page_def)
  ultimately show ?thesis by blast
qed

lemma stored_pages_cong:
  "pf_pages s = pf_pages st \<Longrightarrow> stored s = stored st"
  by (rule ext) (simp add: stored_def get_page_def)

lemma RID_eq: "(r :: RID) = \<lparr>pageNum = pageNum r, slotNum = slotNum r\<rparr>"
  by simp

lemma stored_page_update:
  assumes p: "0 \<le> p" "p < int (length (pf_pages s1))"
    and pages: "pf_pages s = (pf_pages s1)[nat p := pg']"
    and lk: "\<And>k. k \<noteq> sn \<Longrightarrow> live pg' k = live (get_page s1 p) k"
    and rk: "\<And>k. k \<noteq> sn \<Longrightarrow> live (get_page s1 p) k
                \<Longrightarrow> record_of pg' k = record_of (get_page s1 p) k"
  shows "stored s = (stored s1)(\<lparr>pageNum = p, slotNum = sn\<rparr> :=
            (if live pg' sn then Some (record_of pg' sn) else None))"
proof (rule ext)
  fix r :: RID
  show "stored s r = ((stored s1)(\<lparr>pageNum = p, slotNum = sn\<rparr> :=
            (if live pg' sn then Some (record_of pg' sn) else None))) r"
  proof (cases "pageNum r = p")
    case False
    then have "nat (pageNum r) \<noteq> nat p \<or> pageNum r < 0" using p by auto
    with False show ?thesis
      by (auto simp: stored_def get_page_def pages)
  next
    case True
    have gp: "get_page s p = pg'" using p by (simp add: get_page_def pages)
    show ?thesis
    proof (cases "slotNum r = sn")
      case True
      with \<open>pageNum r = p\<close> have "r = \<lparr>pageNum = p, slotNum = sn\<rparr>" by simp
      then show ?thesis using p by (simp add: stored_def gp pages)
    next
      case False
      then have "r \<noteq> \<lparr>pageNum = p, slotNum = sn\<rparr>" by auto
      with False True p lk[of "slotNum r"] rk[of "slotNum r"] show ?thesis
        by (simp add: stored_def gp pages)
    qed
  qed
qed

text \<open>
  \<^verbatim>\<open>RHF_DeleteRecord\<close> of a stored record returns \<^verbatim>\<open>RHF_OK\<close> and removes this record from
  the map, and no other.
\<close>

theorem delete_stored_record:
  assumes inv: "file_inv st" and r: "stored st r = Some d"
  shows "\<exists>s. RHF_DeleteRecord st (pf_fd st) r = Returns (RHF_OK, s)
           \<and> file_inv s \<and> pf_fd s = pf_fd st \<and> stored s = (stored st)(r := None)
           \<and> get_page s (pageNum r) = page_delete (get_page st (pageNum r)) (slotNum r)"
proof -
  let ?p = "pageNum r"
  let ?sn = "slotNum r"
  let ?pg = "get_page st ?p"
  let ?s = "st\<lparr>pf_pages := (pf_pages st)[nat ?p := page_delete ?pg ?sn],
               pf_dirty := (pf_dirty st)(nat ?p := True)\<rparr>"
  note s = stored_Some[OF r]
  have pinv: "page_inv ?pg"
    using inv s(1,2) by (simp add: file_inv_def get_page_def)
  note d = page_delete_correct[OF pinv s(3)]
  have fx: "PF_GetThisPage st (pf_fd st) ?p = Inr (fix_state st ?p)"
    by (rule file_inv_fix[OF inv refl s(1,2)])
  have pins: "pf_pins st = (\<lambda>_. 0)" using inv by (auto simp: file_inv_def)
  have un: "PF_UnfixPage (set_page (fix_state st ?p) ?p (page_delete ?pg ?sn)) (pf_fd st) ?p True
      = Inr ?s"
    using s(1,2) by (simp add: PF_UnfixPage_def set_page_def fix_state_def)
  have del: "RHF_DeleteRecord st (pf_fd st) r = Returns (RHF_OK, ?s)"
    using d(5-8) un
    by (simp add: RHF_DeleteRecord_def fx get_page_fix_state Let_def page_delete_def)
  have "file_inv ?s"
    unfolding file_inv_def
  proof (intro conjI allI impI)
    fix q assume "q < length (pf_pages ?s)"
    then show "page_inv (pf_pages ?s ! q)"
      using inv d(1) by (cases "q = nat ?p") (simp_all add: file_inv_def)
  next
    fix q show "pf_pins ?s q = 0" using inv by (simp add: file_inv_def)
  next
    show "0 < pf_bufsize ?s" using inv by (simp add: file_inv_def)
  qed
  moreover have "stored ?s = (stored st)(r := None)"
    using stored_page_update[of ?p st ?s "page_delete ?pg ?sn" ?sn, OF s(1,2) _ d(3,4)] d(2)
      RID_eq[of r, symmetric]
    by simp
  moreover have "get_page ?s ?p = page_delete ?pg ?sn"
    using s(1,2) by (simp add: get_page_def)
  ultimately show ?thesis using del by simp
qed

text \<open>
  The delete leaves the bytes of the records where they are, those of the deleted record
  included, and every other record stays stored under its RID.
\<close>

theorem delete_keeps_record_bytes:
  assumes inv: "file_inv st" and r: "stored st r = Some d"
  shows "\<exists>s. RHF_DeleteRecord st (pf_fd st) r = Returns (RHF_OK, s)
           \<and> bytes_at (get_page s (pageNum r))
                 (nat (recordOffset (get_page st (pageNum r)) (slotNum r))) (length d) = d
           \<and> (\<forall>r' d'. r' \<noteq> r \<and> stored st r' = Some d' \<longrightarrow> stored s r' = Some d')"
proof -
  let ?pg = "get_page st (pageNum r)"
  let ?sn = "slotNum r"
  from delete_stored_record[OF inv r] obtain s where
    del: "RHF_DeleteRecord st (pf_fd st) r = Returns (RHF_OK, s)"
    and st: "stored s = (stored st)(r := None)"
    and gp: "get_page s (pageNum r) = page_delete ?pg ?sn"
    by blast
  note f = stored_Some[OF r]
  have pinv: "page_inv ?pg"
    using inv f(1,2) by (simp add: file_inv_def get_page_def)
  note c = page_delete_correct[OF pinv f(3)]
  have rec: "0 \<le> recordLength ?pg ?sn" "freeSpacePtr ?pg \<le> recordOffset ?pg ?sn"
    and hdr: "0 \<le> numSlots ?pg" "12 + 8 * numSlots ?pg \<le> freeSpacePtr ?pg"
    using pinv f(3) by (auto simp: page_inv_def)
  have ld: "length d = nat (recordLength ?pg ?sn)"
    by (simp add: f(4) record_of_def length_bytes_at)
  have "freeSpacePtr ?pg \<le> int (nat (recordOffset ?pg ?sn))" using rec(2) hdr by simp
  from c(9)[OF this, of "nat (recordLength ?pg ?sn)"]
  have "bytes_at (get_page s (pageNum r)) (nat (recordOffset ?pg ?sn)) (length d) = d"
    unfolding gp ld by (simp add: f(4) record_of_def)
  moreover have "\<forall>r' d'. r' \<noteq> r \<and> stored st r' = Some d' \<longrightarrow> stored s r' = Some d'"
    by (simp add: st)
  ultimately show ?thesis using del by blast
qed

lemma insert_write_eq:
  assumes fd: "fd = pf_fd s1" and p: "0 \<le> p" "p < int (length (pf_pages s1))"
    and pin: "0 < pf_pins s1 (nat p)"
    and ip: "in_page (to_int32 (freeSpacePtr pg - len)) len"
    and ld: "len \<le> int (length recordData)"
  shows "insert_write s1 fd recordData len p sn pg
     = Returns (RHF_OK, \<lparr>pageNum = p, slotNum = sn\<rparr>,
         s1\<lparr>pf_pages := (pf_pages s1)[nat p := memcpy_to_page
               (wr32 (wr32 (wr32 pg 4 (freeSpacePtr pg - len)) (GET_SLOT sn)
                  (to_int32 (freeSpacePtr pg - len))) (GET_SLOT sn + 4) len)
               (nat (to_int32 (freeSpacePtr pg - len))) recordData (nat len)],
            pf_pins := (pf_pins s1)(nat p := pf_pins s1 (nat p) - 1),
            pf_dirty := (pf_dirty s1)(nat p := True)\<rparr>)"
proof -
  let ?off = "to_int32 (freeSpacePtr pg - len)"
  let ?pg3 = "wr32 (wr32 (wr32 pg 4 (freeSpacePtr pg - len)) (GET_SLOT sn)
       (freeSpacePtr (wr32 pg 4 (freeSpacePtr pg - len)))) (GET_SLOT sn + 4) len"
  let ?pg4 = "memcpy_to_page ?pg3 (nat ?off) recordData (nat len)"
  have f: "freeSpacePtr (wr32 pg 4 (freeSpacePtr pg - len)) = ?off"
    by (simp add: freeSpacePtr_def rd32_wr32_same)
  have un: "PF_UnfixPage (set_page s1 p ?pg4) fd p True
      = Inr ((set_page s1 p ?pg4)\<lparr>pf_pins := (pf_pins s1)(nat p := pf_pins s1 (nat p) - 1),
                pf_dirty := (pf_dirty s1)(nat p := True)\<rparr>)"
    using fd p pin by (simp add: PF_UnfixPage_def set_page_def)
  have "insert_write s1 fd recordData len p sn pg
      = Returns (RHF_OK, \<lparr>pageNum = p, slotNum = sn\<rparr>,
          (set_page s1 p ?pg4)\<lparr>pf_pins := (pf_pins s1)(nat p := pf_pins s1 (nat p) - 1),
                pf_dirty := (pf_dirty s1)(nat p := True)\<rparr>)"
    using ip ld un by (simp add: insert_write_def Let_def insert_write_offset)
  then show ?thesis by (simp add: f set_page_def)
qed

lemma record_fits_has_space:
  assumes inv: "page_inv pg" and len: "0 \<le> len" and sp: "page_has_space pg len"
  shows "record_fits pg len"
proof -
  have hdr: "0 \<le> numSlots pg" "12 + 8 * numSlots pg \<le> freeSpacePtr pg"
    "freeSpacePtr pg \<le> PF_PAGE_SIZE"
    using inv by (auto simp: page_inv_def)
  have "to_int32 (freeSpacePtr pg - (12 + numSlots pg * 8)) = freeSpacePtr pg - (12 + numSlots pg * 8)"
    using hdr by (intro to_int32_id) auto
  with sp len show ?thesis
    by (simp add: page_has_space_def freeSpace_def record_fits_def)
qed

lemma record_fits_InitPage: "0 \<le> len \<Longrightarrow> len \<le> 4076 \<Longrightarrow> record_fits (rhf_InitPage pg) len"
  by (simp add: record_fits_def rhf_InitPage_fields spaceNeededForSlot_def)

lemma stored_new_page_state: "stored (new_page_state st) = stored st"
proof (rule ext)
  fix r :: RID
  have "\<not> live (rhf_InitPage (\<lambda>_. 0)) k" for k
    by (simp add: live_def rhf_InitPage_fields)
  then show "stored (new_page_state st) r = stored st r"
    by (auto simp: stored_def new_page_state_def get_page_def nth_append)
qed

text \<open>
  \<^verbatim>\<open>RHF_InsertRecord\<close> of a record of at most 4076 bytes returns \<^verbatim>\<open>RHF_OK\<close>.  The page is
  the first one that passes the test of the page scan, or a new page; the slot is
  \<open>insert_slot\<close> of that page; the RID returned was not in use, and the map of the records
  gains the record under this RID and is otherwise unchanged.
\<close>

lemma insert_record_page:
  fixes recordData :: "byte list"
  assumes inv: "file_inv st" and len: "0 \<le> len" "len \<le> 4076"
    and data: "len = int (length recordData)"
  shows "\<exists>p pg s.
           (\<forall>j. 0 \<le> j \<and> j < p \<and> j < int (length (pf_pages st))
                  \<longrightarrow> \<not> page_has_space (get_page st j) len)
           \<and> (0 \<le> p \<and> p < int (length (pf_pages st)) \<and> pg = get_page st p
                  \<and> page_has_space pg len
               \<or> p = int (length (pf_pages st)) \<and> pg = rhf_InitPage (\<lambda>_. 0))
           \<and> page_inv pg \<and> record_fits pg len
           \<and> RHF_InsertRecord st (pf_fd st) recordData len rid
               = Returns (RHF_OK, \<lparr>pageNum = p, slotNum = insert_slot pg\<rparr>, s)
           \<and> get_page s p = page_insert pg recordData len
           \<and> file_inv s \<and> pf_fd s = pf_fd st
           \<and> stored st \<lparr>pageNum = p, slotNum = insert_slot pg\<rparr> = None
           \<and> stored s = (stored st)(\<lparr>pageNum = p, slotNum = insert_slot pg\<rparr> \<mapsto> recordData)"
proof -
  let ?fd = "pf_fd st"
  have pins: "pf_pins st q = 0" for q using inv by (simp add: file_inv_def)
  have pcnt: "pinned_count st < pf_bufsize st"
    using inv pinned_count_0[of st] by (simp add: file_inv_def)
  from loop_returns[OF refl pcnt, of len "- 1"] len obtain p s1 where
    lp: "rhf_GetPageWithSpace_from st ?fd len (- 1) = Returns (Inr (p, s1))" by auto
  from loop_sound[OF lp] have pc: "page_chosen st len 0 p s1" by simp
  note fxd = page_chosen_fixed[OF pc order_refl]
  define pg where "pg = get_page s1 p"
  have before: "\<forall>j. 0 \<le> j \<and> j < p \<and> j < int (length (pf_pages st))
                  \<longrightarrow> \<not> page_has_space (get_page st j) len"
    using pc by (simp add: page_chosen_def)
  have facts: "page_inv pg \<and> record_fits pg len \<and> stored s1 = stored st
      \<and> (\<forall>q. q < length (pf_pages s1) \<longrightarrow> q \<noteq> nat p \<longrightarrow> page_inv (pf_pages s1 ! q))
      \<and> (\<forall>q. ((pf_pins s1)(nat p := pf_pins s1 (nat p) - 1)) q = 0)
      \<and> pf_bufsize s1 = pf_bufsize st
      \<and> (0 \<le> p \<and> p < int (length (pf_pages st)) \<and> pg = get_page st p
                  \<and> page_has_space pg len
               \<or> p = int (length (pf_pages st)) \<and> pg = rhf_InitPage (\<lambda>_. 0))"
  proof (cases "p < int (length (pf_pages st))")
    case True
    with pc have s1: "s1 = fix_state st p" and sp: "page_has_space (get_page st p) len"
      and p0: "0 \<le> p"
      by (auto simp: page_chosen_def)
    have g: "pg = get_page st p" by (simp add: pg_def s1 get_page_fix_state)
    have pi: "page_inv pg" using inv True p0 by (simp add: g get_page_def file_inv_def)
    have "stored s1 = stored st" by (rule stored_pages_cong) (simp add: s1 fix_state_def)
    moreover have "record_fits pg len"
      using pi len(1) sp unfolding g by (rule record_fits_has_space)
    moreover have "\<forall>q. q < length (pf_pages s1) \<longrightarrow> q \<noteq> nat p \<longrightarrow> page_inv (pf_pages s1 ! q)"
      using inv by (simp add: s1 fix_state_def file_inv_def)
    moreover have "\<forall>q. ((pf_pins s1)(nat p := pf_pins s1 (nat p) - 1)) q = 0"
      by (simp add: s1 fix_state_def pins)
    moreover have "pf_bufsize s1 = pf_bufsize st" by (simp add: s1 fix_state_def)
    ultimately show ?thesis using pi True p0 g sp by simp
  next
    case False
    with pc have s1: "s1 = new_page_state st" and p: "p = int (length (pf_pages st))"
      by (auto simp: page_chosen_def)
    have g: "pg = rhf_InitPage (\<lambda>_. 0)"
      by (simp add: pg_def s1 p new_page_state_def get_page_def)
    have "page_inv pg" unfolding g by (rule page_inv_InitPage)
    moreover have "record_fits pg len" unfolding g by (rule record_fits_InitPage[OF len])
    moreover have "stored s1 = stored st" unfolding s1 by (rule stored_new_page_state)
    moreover have "\<forall>q. q < length (pf_pages s1) \<longrightarrow> q \<noteq> nat p \<longrightarrow> page_inv (pf_pages s1 ! q)"
      using inv by (auto simp: s1 p new_page_state_def file_inv_def nth_append)
    moreover have "\<forall>q. ((pf_pins s1)(nat p := pf_pins s1 (nat p) - 1)) q = 0"
      by (simp add: s1 p new_page_state_def pins)
    moreover have "pf_bufsize s1 = pf_bufsize st" by (simp add: s1 new_page_state_def)
    ultimately show ?thesis using p g by simp
  qed
  then have pinv: "page_inv pg" and fits: "record_fits pg len" by simp_all
  define sn where "sn = insert_slot pg"
  define pg' where "pg' = page_insert pg recordData len"
  note c = page_insert_correct[OF pinv fits data, folded sn_def pg'_def]
  define s where "s = s1\<lparr>pf_pages := (pf_pages s1)[nat p := pg'],
            pf_pins := (pf_pins s1)(nat p := pf_pins s1 (nat p) - 1),
            pf_dirty := (pf_dirty s1)(nat p := True)\<rparr>"
  have w: "insert_write s1 ?fd recordData len p sn (slot_taken pg)
      = Returns (RHF_OK, \<lparr>pageNum = p, slotNum = sn\<rparr>, s)"
    unfolding s_def pg'_def page_insert_def sn_def[symmetric]
    using fxd(1,2,3) c(8) data
    by (intro insert_write_eq) (simp_all add: fxd(4))
  have hp: "rhf_GetPageWithSpace st ?fd len = Returns (Inr (p, s1))"
    by (simp only: rhf_GetPageWithSpace_def lp)
  have ins: "RHF_InsertRecord st ?fd recordData len rid
      = Returns (RHF_OK, \<lparr>pageNum = p, slotNum = sn\<rparr>, s)"
  proof (cases "nextFreeSlot pg = - 1")
    case True
    with w c(7) hp show ?thesis
      by (simp add: RHF_InsertRecord_def Let_def pg_def[symmetric]
            sn_def insert_slot_def slot_taken_def)
  next
    case False
    with w c(7) hp show ?thesis
      by (simp add: RHF_InsertRecord_def Let_def pg_def[symmetric]
            sn_def insert_slot_def slot_taken_def)
  qed
  have finv: "file_inv s"
    unfolding file_inv_def
  proof (intro conjI allI impI)
    fix q assume "q < length (pf_pages s)"
    then show "page_inv (pf_pages s ! q)"
      using facts c(1) by (cases "q = nat p") (simp_all add: s_def)
  next
    fix q show "pf_pins s q = 0" using facts by (simp add: s_def)
  next
    show "0 < pf_bufsize s" using facts inv by (simp add: s_def file_inv_def)
  qed
  have gp: "get_page s p = pg'" using fxd(1,2) by (simp add: s_def get_page_def)
  have rk: "record_of pg' k = record_of (get_page s1 p) k"
    if "k \<noteq> sn" "live (get_page s1 p) k" for k
    using c(6)[of k] that by (simp add: pg_def)
  have lk: "live pg' k = live (get_page s1 p) k" if "k \<noteq> sn" for k
    using c(5)[OF that] by (simp add: pg_def)
  have "stored s = (stored s1)(\<lparr>pageNum = p, slotNum = sn\<rparr> :=
            (if live pg' sn then Some (record_of pg' sn) else None))"
    by (rule stored_page_update[OF fxd(1,2) _ lk rk]) (simp_all add: s_def)
  then have st: "stored s = (stored st)(\<lparr>pageNum = p, slotNum = sn\<rparr> \<mapsto> recordData)"
    using facts c(3,4) by simp
  have "stored s1 \<lparr>pageNum = p, slotNum = sn\<rparr> = None"
    using c(2) by (simp add: stored_def pg_def)
  then have none: "stored st \<lparr>pageNum = p, slotNum = sn\<rparr> = None" using facts by simp
  have fds: "pf_fd s = pf_fd st" by (simp add: s_def fxd(4))
  have place: "0 \<le> p \<and> p < int (length (pf_pages st)) \<and> pg = get_page st p
                  \<and> page_has_space pg len
               \<or> p = int (length (pf_pages st)) \<and> pg = rhf_InitPage (\<lambda>_. 0)"
    using facts by simp
  show ?thesis
    apply (rule exI[of _ p], rule exI[of _ pg], rule exI[of _ s])
    apply (intro conjI)
             apply (rule before)
            apply (rule place)
           apply (rule pinv)
          apply (rule fits)
         apply (rule ins[unfolded sn_def])
        apply (rule gp[unfolded pg'_def])
       apply (rule finv)
      apply (rule fds)
     apply (rule none[unfolded sn_def])
    apply (rule st[unfolded sn_def])
    done
qed

theorem insert_record:
  fixes recordData :: "byte list"
  assumes "file_inv st" and "0 \<le> len" and "len \<le> 4076"
    and "len = int (length recordData)"
  shows "\<exists>r s. RHF_InsertRecord st (pf_fd st) recordData len rid = Returns (RHF_OK, r, s)
           \<and> file_inv s \<and> pf_fd s = pf_fd st \<and> stored st r = None
           \<and> stored s = (stored st)(r \<mapsto> recordData)"
proof -
  from insert_record_page[OF assms, of rid] obtain p pg s where
    "RHF_InsertRecord st (pf_fd st) recordData len rid
       = Returns (RHF_OK, \<lparr>pageNum = p, slotNum = insert_slot pg\<rparr>, s)"
    "file_inv s" "pf_fd s = pf_fd st"
    "stored st \<lparr>pageNum = p, slotNum = insert_slot pg\<rparr> = None"
    "stored s = (stored st)(\<lparr>pageNum = p, slotNum = insert_slot pg\<rparr> \<mapsto> recordData)"
    by (elim exE conjE)
  then show ?thesis by (intro exI conjI)
qed

theorem insert_record_slot:
  fixes recordData :: "byte list"
  assumes "file_inv st" and "0 \<le> len" and "len \<le> 4076"
    and "len = int (length recordData)"
  shows "\<exists>p pg s.
           (0 \<le> p \<and> p < int (length (pf_pages st)) \<and> pg = get_page st p
              \<or> p = int (length (pf_pages st)) \<and> pg = rhf_InitPage (\<lambda>_. 0))
           \<and> RHF_InsertRecord st (pf_fd st) recordData len rid
               = Returns (RHF_OK, \<lparr>pageNum = p, slotNum = insert_slot pg\<rparr>, s)
           \<and> numSlots (get_page s p)
               = (if nextFreeSlot pg \<noteq> - 1 then numSlots pg else numSlots pg + 1)
           \<and> nextFreeSlot (get_page s p)
               = (if nextFreeSlot pg \<noteq> - 1 then recordOffset pg (nextFreeSlot pg) else - 1)
           \<and> freeSpacePtr (get_page s p) = freeSpacePtr pg - len
           \<and> recordOffset (get_page s p) (insert_slot pg) = freeSpacePtr pg - len
           \<and> recordLength (get_page s p) (insert_slot pg) = len"
proof -
  from insert_record_page[OF assms, of rid] obtain p pg s where
    a: "0 \<le> p \<and> p < int (length (pf_pages st)) \<and> pg = get_page st p \<and> page_has_space pg len
        \<or> p = int (length (pf_pages st)) \<and> pg = rhf_InitPage (\<lambda>_. 0)"
    and b: "page_inv pg" "record_fits pg len"
    and c: "RHF_InsertRecord st (pf_fd st) recordData len rid
               = Returns (RHF_OK, \<lparr>pageNum = p, slotNum = insert_slot pg\<rparr>, s)"
      "get_page s p = page_insert pg recordData len"
    by (elim exE conjE)
  note d = page_insert_correct[OF b assms(4), folded c(2)]
  from a have place: "0 \<le> p \<and> p < int (length (pf_pages st)) \<and> pg = get_page st p
        \<or> p = int (length (pf_pages st)) \<and> pg = rhf_InitPage (\<lambda>_. 0)" by auto
  show ?thesis
    apply (rule exI[of _ p], rule exI[of _ pg], rule exI[of _ s])
    apply (intro conjI)
          apply (rule place)
         apply (rule c(1))
        apply (rule d(9))
       apply (rule d(10))
      apply (rule d(11))
     apply (rule d(12))
    apply (rule d(13))
    done
qed

lemma file_inv_empty_file: "file_inv empty_file"
  by (simp add: file_inv_def empty_file_def)

lemma stored_empty_file: "stored empty_file = Map.empty"
  by (rule ext) (simp add: stored_def empty_file_def)

subsection \<open>Runs of inserts and deletes\<close>

text \<open>
  A run of inserts of records that fit and of deletes of records that are stored: every
  call returns \<^verbatim>\<open>RHF_OK\<close>, and the records of the file after the run are those of the map:
  a record stays under its RID, with its bytes, until that RID is deleted.
\<close>

theorem rhf_run_stored:
  assumes "file_inv st" and "list_all fits_call cs" and "deletes_stored st (pf_fd st) cs"
  shows "\<exists>rs s. rhf_run st (pf_fd st) cs = Returns (rs, s) \<and> file_inv s \<and> pf_fd s = pf_fd st
           \<and> map fst rs = replicate (length cs) RHF_OK
           \<and> stored s = run_map (stored st) cs rs"
  using assms
proof (induction cs arbitrary: st)
  case Nil
  then show ?case by simp
next
  case (Cons c cs)
  show ?case
  proof (cases c)
    case (Insert recordData len)
    with Cons.prems(2) have len: "0 \<le> len" "len \<le> 4076" "len = int (length recordData)"
      and rest: "list_all fits_call cs" by simp_all
    from insert_record[OF Cons.prems(1) len, of "\<lparr>pageNum = 0, slotNum = 0\<rparr>"]
    obtain r s1 where ins: "RHF_InsertRecord st (pf_fd st) recordData len \<lparr>pageNum = 0, slotNum = 0\<rparr>
          = Returns (RHF_OK, r, s1)"
      and s1: "file_inv s1" "pf_fd s1 = pf_fd st" "stored s1 = (stored st)(r \<mapsto> recordData)"
      by blast
    from Cons.prems(3) Insert ins s1(2) have "deletes_stored s1 (pf_fd s1) cs" by simp
    from Cons.IH[OF s1(1) rest this] obtain rs s where
      run: "rhf_run s1 (pf_fd s1) cs = Returns (rs, s)" and s: "file_inv s" "pf_fd s = pf_fd s1"
      "map fst rs = replicate (length cs) RHF_OK" "stored s = run_map (stored s1) cs rs"
      by blast
    have "rhf_run st (pf_fd st) (c # cs) = Returns ((RHF_OK, r) # rs, s)"
      using run by (simp add: Insert ins s1(2))
    with s s1 Insert show ?thesis by simp
  next
    case (Delete rid)
    with Cons.prems(2) have rest: "list_all fits_call cs" by simp
    from Cons.prems(3) Delete obtain d where d: "stored st rid = Some d" by auto
    from delete_stored_record[OF Cons.prems(1) d]
    obtain s1 where del: "RHF_DeleteRecord st (pf_fd st) rid = Returns (RHF_OK, s1)"
      and s1: "file_inv s1" "pf_fd s1 = pf_fd st" "stored s1 = (stored st)(rid := None)"
      by blast
    from Cons.prems(3) Delete del s1(2) have "deletes_stored s1 (pf_fd s1) cs" by simp
    from Cons.IH[OF s1(1) rest this] obtain rs s where
      run: "rhf_run s1 (pf_fd s1) cs = Returns (rs, s)" and s: "file_inv s" "pf_fd s = pf_fd s1"
      "map fst rs = replicate (length cs) RHF_OK" "stored s = run_map (stored s1) cs rs"
      by blast
    have "rhf_run st (pf_fd st) (c # cs) = Returns ((RHF_OK, rid) # rs, s)"
      using run by (simp add: Delete del s1(2))
    with s s1 Delete show ?thesis by simp
  qed
qed

subsection \<open>Scans\<close>

lemma slot_list_end: "numSlots pg \<le> k \<Longrightarrow> slot_list pg k = []"
  by (simp add: slot_list_def)

lemma slot_list_step:
  assumes "0 \<le> k" and "k < numSlots pg"
  shows "slot_list pg k = (if recordLength pg k \<noteq> - 1 then [k] else []) @ slot_list pg (k + 1)"
proof -
  have "[nat k ..< nat (numSlots pg)] = nat k # [nat (k + 1) ..< nat (numSlots pg)]"
    using assms by (simp add: upt_conv_Cons nat_add_distrib)
  then show ?thesis using assms by (simp add: slot_list_def)
qed

lemma recs_from_end: "int (length (pf_pages st)) \<le> q \<Longrightarrow> recs_from st q = []"
  by (simp add: recs_from_def)

lemma recs_from_step:
  assumes "0 \<le> q" and "q < int (length (pf_pages st))"
  shows "recs_from st q = page_recs st q 0 @ recs_from st (q + 1)"
proof -
  have "[nat q ..< length (pf_pages st)] = nat q # [nat (q + 1) ..< length (pf_pages st)]"
    using assms by (simp add: upt_conv_Cons nat_add_distrib)
  then show ?thesis using assms by (simp add: recs_from_def)
qed

text \<open>
  One call of \<^verbatim>\<open>RHF_GetNextRecord\<close> in a scan of a file in which nothing else is fixed:
  it returns the first of the remaining records, or \<^verbatim>\<open>RHF_EOF\<close> when none remains.
\<close>

lemma next_record:
  assumes "file_inv st0" and "scanning st0 scan st"
  shows "next_spec st0 (remaining st0 scan) recordBuf len rid
           (RHF_GetNextRecord st scan recordBuf len rid)"
  using assms
proof (induction st scan recordBuf len rid rule: RHF_GetNextRecord.induct)
  case (1 st scan recordBuf len rid)
  note inv = "1.prems"(1) and sc = "1.prems"(2)
  note simps = RHF_GetNextRecord.simps[of st scan recordBuf len rid]
  have pcnt: "pinned_count st0 < pf_bufsize st0" and pins: "\<And>q. pf_pins st0 q = 0"
    using inv pinned_count_0[of st0] by (simp_all add: file_inv_def)
  have fd: "scan_fd scan = pf_fd st0" using sc by (simp add: scanning_def)
  define q where "q = max 0 (currentPage scan + 1)"
  consider (eof) "page_is_fixed scan = 0" "st = st0" "int (length (pf_pages st0)) \<le> q"
    | (page) st1 scan1 where "scan_get_page st scan = Inr (st1, scan1)"
        "scanning st0 scan1 st1" "page_is_fixed scan1 = 1"
        "remaining st0 scan1 = remaining st0 scan"
  proof (cases "page_is_fixed scan = 0")
    case False
    with sc have "scan_get_page st scan = Inr (st, scan)" "page_is_fixed scan = 1"
      by (simp_all add: scan_get_page_def scanning_def)
    with sc show ?thesis by (intro page[of st scan]) simp_all
  next
    case True
    with sc have st: "st = st0" by (simp add: scanning_def)
    show ?thesis
    proof (cases "int (length (pf_pages st0)) \<le> q")
      case True
      with \<open>page_is_fixed scan = 0\<close> st show ?thesis by (rule eof)
    next
      case False
      then have q: "0 \<le> q" "q < int (length (pf_pages st0))" by (auto simp: q_def)
      let ?scan1 = "scan\<lparr>currentPage := q, pageBuf := Some q, page_is_fixed := 1, currentSlot := 0\<rparr>"
      have nx: "PF_GetNextPage st0 (scan_fd scan) (currentPage scan) = Inr (q, fix_state st0 q)"
        using fd False pins pcnt
        by (auto simp add: PF_GetNextPage_def pf_fix_def fix_state_def q_def Let_def)
      have g: "scan_get_page st scan = Inr (fix_state st0 q, ?scan1)"
        using True by (simp add: scan_get_page_def st nx)
      have s1: "scanning st0 ?scan1 (fix_state st0 q)"
        using q fd by (simp add: scanning_def)
      have "remaining st0 ?scan1 = remaining st0 scan"
        using True recs_from_step[OF q] by (simp add: remaining_def q_def)
      with g s1 show ?thesis by (intro page[of "fix_state st0 q" ?scan1]) simp_all
    qed
  qed
  then show ?case
  proof cases
    case eof
    have "PF_GetNextPage st0 (scan_fd scan) (currentPage scan) = Inl PFE_EOF"
      using eof(3) fd by (simp add: PF_GetNextPage_def q_def Let_def)
    then have g: "scan_get_page st scan = Inl RHF_EOF"
      using eof(1,2) by (simp add: scan_get_page_def)
    have out: "RHF_GetNextRecord st scan recordBuf len rid
        = Returns (RHF_EOF, scan, recordBuf, len, rid, st)"
      by (simp add: simps g del: RHF_GetNextRecord.simps)
    have "remaining st0 scan = []"
      using eof(1) recs_from_end[OF eof(3)] by (simp add: remaining_def q_def)
    with eof(1,2) show ?thesis unfolding out by (simp add: next_spec_def)
  next
    case (page st1 scan1)
    note g = page(1)
    let ?p = "currentPage scan1"
    let ?k = "currentSlot scan1"
    let ?pg = "get_page st1 ?p"
    from page(2,3) have f: "scan_fd scan1 = pf_fd st0" "pageBuf scan1 = Some ?p" "0 \<le> ?p"
      "?p < int (length (pf_pages st0))" "0 \<le> ?k" "st1 = fix_state st0 ?p"
      by (simp_all add: scanning_def)
    have bv: "buf_valid st1 ?p" using f by (simp add: buf_valid_def fix_state_def)
    have pgeq: "?pg = get_page st0 ?p" by (simp add: f(6) get_page_fix_state)
    have pinv: "page_inv ?pg"
      unfolding pgeq using inv f(3,4) by (simp add: get_page_def file_inv_def)
    have hdr: "0 \<le> numSlots ?pg" "12 + 8 * numSlots ?pg \<le> freeSpacePtr ?pg"
      "freeSpacePtr ?pg \<le> PF_PAGE_SIZE"
      using pinv by (auto simp: page_inv_def)
    have rem: "remaining st0 scan = page_recs st0 ?p ?k @ recs_from st0 (?p + 1)"
      using page(3,4) by (simp add: remaining_def)
    show ?thesis
    proof (cases "numSlots ?pg \<le> ?k")
      case True
      have un: "PF_UnfixPage st1 (scan_fd scan1) ?p False = Inr st0"
        unfolding f(6) f(1) by (rule unfix_fix_state[OF refl f(3,4)])
      have out: "RHF_GetNextRecord st scan recordBuf len rid
          = RHF_GetNextRecord st0 (scan1\<lparr>page_is_fixed := 0\<rparr>) recordBuf len rid"
        using True bv by (simp add: simps g f(2) un del: RHF_GetNextRecord.simps)
      have sc': "scanning st0 (scan1\<lparr>page_is_fixed := 0\<rparr>) st0"
        using f(1) by (simp add: scanning_def)
      have e: "page_recs st0 ?p ?k = []"
        using True by (simp add: page_recs_def pgeq[symmetric] slot_list_end)
      have r1: "remaining st0 (scan1\<lparr>page_is_fixed := 0\<rparr>) = recs_from st0 (?p + 1)"
        using f(3) by (simp add: remaining_def)
      have "remaining st0 (scan1\<lparr>page_is_fixed := 0\<rparr>) = remaining st0 scan"
        unfolding r1 rem e by simp
      with "1.IH"(1)[OF g refl f(2) bv refl True un inv sc'] show ?thesis
        by (simp only: out)
    next
      case False
      then have sl: "slot_in_page ?k" using f(5) hdr by (simp add: slot_in_page_def)
      let ?scan2 = "scan1\<lparr>currentSlot := ?k + 1\<rparr>"
      have sc2: "scanning st0 ?scan2 st1" using page(2,3) f(5) by (simp add: scanning_def)
      have step: "page_recs st0 ?p ?k
          = (if recordLength ?pg ?k \<noteq> - 1
             then [(\<lparr>pageNum = ?p, slotNum = ?k\<rparr>, record_of ?pg ?k)] else [])
            @ page_recs st0 ?p (?k + 1)"
        using False f(5) slot_list_step[of ?k ?pg]
        by (simp add: page_recs_def pgeq[symmetric])
      have rem2: "remaining st0 ?scan2 = page_recs st0 ?p (?k + 1) @ recs_from st0 (?p + 1)"
        using page(3) by (simp add: remaining_def)
      show ?thesis
      proof (cases "recordLength ?pg ?k \<noteq> - 1")
        case del: False
        have out: "RHF_GetNextRecord st scan recordBuf len rid
            = RHF_GetNextRecord st1 ?scan2 recordBuf len rid"
          using False sl del bv
          by (simp add: simps g f(2) Let_def del: RHF_GetNextRecord.simps)
        have "remaining st0 ?scan2 = remaining st0 scan"
          using del by (simp add: rem rem2 step)
        with "1.IH"(2)[OF g refl f(2) bv refl False sl refl refl del inv sc2] show ?thesis
          by (simp only: out)
      next
        case True
        have lv: "live ?pg ?k" using True False f(5) by (simp add: live_def)
        have rec: "0 \<le> recordLength ?pg ?k" "freeSpacePtr ?pg \<le> recordOffset ?pg ?k"
          "recordOffset ?pg ?k + recordLength ?pg ?k \<le> PF_PAGE_SIZE"
          using pinv lv by (auto simp: page_inv_def)
        have ip: "in_page (recordOffset ?pg ?k) (recordLength ?pg ?k)"
          using rec hdr by (simp add: in_page_def)
        let ?b = "memcpy_from_page recordBuf ?pg (nat (recordOffset ?pg ?k))
                    (nat (recordLength ?pg ?k))"
        have out: "RHF_GetNextRecord st scan recordBuf len rid
            = Returns (RHF_OK, ?scan2, ?b, recordLength ?pg ?k,
                \<lparr>pageNum = ?p, slotNum = ?k\<rparr>, st1)"
          using False sl True bv ip
          by (simp add: simps g f(2) Let_def del: RHF_GetNextRecord.simps)
        have r: "remaining st0 scan
            = (\<lparr>pageNum = ?p, slotNum = ?k\<rparr>, record_of ?pg ?k) # remaining st0 ?scan2"
          using True by (simp add: rem rem2 step)
        have l: "length (record_of ?pg ?k) = nat (recordLength ?pg ?k)"
          by (simp add: record_of_def length_bytes_at)
        have b: "bytes_at ?b 0 (nat (recordLength ?pg ?k)) = record_of ?pg ?k"
          by (simp add: bytes_at_memcpy_from_page record_of_def)
        show ?thesis
          unfolding out r next_spec_def using rec(1) sc2 b by (simp add: l)
      qed
    qed
  qed
qed

text \<open>
  The loop returns the remaining records and ends with \<^verbatim>\<open>RHF_EOF\<close>, within one call more
  than there are records.
\<close>

lemma scan_loop_remaining:
  assumes inv: "file_inv st0"
  shows "scanning st0 scan st \<Longrightarrow> length (remaining st0 scan) < n \<Longrightarrow>
     \<exists>scan'. scan_loop n st scan recBuf recLen recRID
               = Some (Returns (remaining st0 scan, RHF_EOF, scan', st0))
           \<and> page_is_fixed scan' = 0"
proof (induction n arbitrary: scan st recBuf recLen recRID)
  case 0
  then show ?case by simp
next
  case (Suc n)
  note ns = next_record[OF inv Suc.prems(1), of recBuf recLen recRID]
  show ?case
  proof (cases "RHF_GetNextRecord st scan recBuf recLen recRID")
    case Fault
    with ns show ?thesis by (simp add: next_spec_def)
  next
    case (Returns out)
    obtain c scan' b l r st' where out: "out = (c, scan', b, l, r, st')"
      by (cases out) auto
    note ret = Returns[unfolded out]
    show ?thesis
    proof (cases "remaining st0 scan")
      case Nil
      with ns ret show ?thesis
        by (simp add: next_spec_def del: RHF_GetNextRecord.simps)
    next
      case (Cons x rest)
      with ns ret have c: "c = RHF_OK" "r = fst x" "l = int (length (snd x))"
        "bytes_at b 0 (length (snd x)) = snd x"
        "scanning st0 scan' st'" "remaining st0 scan' = rest"
        by (simp_all add: next_spec_def del: RHF_GetNextRecord.simps)
      have "length (remaining st0 scan') < n" using Suc.prems(2) Cons c(6) by simp
      from Suc.IH[OF c(5) this, of b l r] obtain scan'' where
        "scan_loop n st' scan' b l r = Some (Returns (rest, RHF_EOF, scan'', st0))"
        "page_is_fixed scan'' = 0" using c(6) by auto
      with ret c Cons show ?thesis
        by (simp del: RHF_GetNextRecord.simps)
    qed
  qed
qed

lemma slot_list_live: "sn \<in> set (slot_list pg 0) \<longleftrightarrow> live pg sn"
proof
  assume "sn \<in> set (slot_list pg 0)"
  then show "live pg sn" by (auto simp: slot_list_def live_def)
next
  assume l: "live pg sn"
  then have "nat sn \<in> set [0 ..< nat (numSlots pg)]" "int (nat sn) = sn"
    by (auto simp: live_def)
  then have "sn \<in> int ` set [0 ..< nat (numSlots pg)]" by (metis imageI)
  with l show "sn \<in> set (slot_list pg 0)" by (simp add: slot_list_def live_def)
qed

lemma distinct_slot_list: "distinct (slot_list pg k)"
  by (simp add: slot_list_def distinct_map)

lemma page_recs_iff:
  "(r, d) \<in> set (page_recs st p 0)
     \<longleftrightarrow> pageNum r = p \<and> live (get_page st p) (slotNum r) \<and> d = record_of (get_page st p) (slotNum r)"
  by (cases r) (auto simp: page_recs_def slot_list_live)

lemma distinct_page_recs: "distinct (map fst (page_recs st p k))"
  by (simp add: page_recs_def distinct_map distinct_slot_list comp_def inj_on_def)

lemma distinct_concat_upt:
  assumes "\<And>i. distinct (f i)" and "\<And>i j x. x \<in> set (f i) \<Longrightarrow> x \<in> set (f j) \<Longrightarrow> i = j"
  shows "distinct (concat (map f [a ..< b]))"
proof (induction b)
  case 0
  show ?case by simp
next
  case (Suc b)
  show ?case
  proof (cases "a \<le> b")
    case False
    then show ?thesis by simp
  next
    case True
    have "x \<notin> set (f b)" if "i < b" "x \<in> set (f i)" for i x
      using assms(2)[of x i b] that by auto
    with True Suc assms(1) show ?thesis by auto
  qed
qed

text \<open>The records in scan order are the stored records, each RID once.\<close>

lemma recs_from_iff:
  "(r, d) \<in> set (recs_from st 0) \<longleftrightarrow> stored st r = Some d"
proof
  assume "(r, d) \<in> set (recs_from st 0)"
  then obtain p where "p < length (pf_pages st)" "(r, d) \<in> set (page_recs st (int p) 0)"
    by (auto simp: recs_from_def)
  then show "stored st r = Some d" by (auto simp: page_recs_iff stored_def)
next
  assume s: "stored st r = Some d"
  note f = stored_Some[OF s]
  have a: "(r, d) \<in> set (page_recs st (int (nat (pageNum r))) 0)"
    using f by (simp add: page_recs_iff)
  have b: "nat (pageNum r) \<in> set [0 ..< length (pf_pages st)]" using f by simp
  have "\<exists>p\<in>set [0 ..< length (pf_pages st)]. (r, d) \<in> set (page_recs st (int p) 0)"
    by (rule bexI[of _ "nat (pageNum r)"]) (rule a, rule b)
  then show "(r, d) \<in> set (recs_from st 0)"
    by (simp add: recs_from_def)
qed

lemma distinct_recs_from: "distinct (map fst (recs_from st q))"
proof -
  have "map fst (recs_from st q)
      = concat (map (\<lambda>p. map fst (page_recs st (int p) 0)) [nat q ..< length (pf_pages st)])"
    by (simp add: recs_from_def map_concat comp_def)
  moreover have "i = j" if "x \<in> set (map fst (page_recs st (int i) 0))"
    "x \<in> set (map fst (page_recs st (int j) 0))" for i j x
    using that by (auto simp: page_recs_iff)
  ultimately show ?thesis
    using distinct_concat_upt[of "\<lambda>p. map fst (page_recs st (int p) 0)"] distinct_page_recs
    by metis
qed

lemma map_of_recs_from: "map_of (recs_from st 0) = stored st"
proof (rule ext)
  fix r
  show "map_of (recs_from st 0) r = stored st r"
  proof (cases "stored st r")
    case None
    then have "\<And>d. (r, d) \<notin> set (recs_from st 0)" by (simp add: recs_from_iff)
    then have "map_of (recs_from st 0) r = None"
      by (metis map_of_SomeD not_None_eq)
    with None show ?thesis by simp
  next
    case (Some d)
    then have "(r, d) \<in> set (recs_from st 0)" by (simp add: recs_from_iff)
    with distinct_recs_from[of st 0] Some show ?thesis by simp
  qed
qed

text \<open>
  A full scan returns the stored records, each one once with its RID, ends with
  \<^verbatim>\<open>RHF_EOF\<close> and leaves the file as it was; after a run of inserts and deletes as above
  these are the records that were inserted and not deleted.
\<close>

theorem full_scan_stored:
  assumes inv: "file_inv st" and n: "length (recs_from st 0) < n"
  shows "full_scan n st (pf_fd st) scan0 recBuf recLen recRID
           = Some (Returns (recs_from st 0, RHF_EOF, st))"
proof -
  let ?scan = "snd (RHF_StartScan (pf_fd st) scan0)"
  have sc: "scanning st ?scan st" by (simp add: scanning_def RHF_StartScan_def)
  have rem: "remaining st ?scan = recs_from st 0" by (simp add: remaining_def RHF_StartScan_def)
  from scan_loop_remaining[OF inv sc, of n recBuf recLen recRID] n obtain scan' where
    l: "scan_loop n st ?scan recBuf recLen recRID = Some (Returns (recs_from st 0, RHF_EOF, scan', st))"
    and u: "page_is_fixed scan' = 0"
    by (auto simp: rem)
  show ?thesis by (simp add: full_scan_def l RHF_EndScan_def u)
qed

theorem full_scan_after_run:
  assumes "file_inv st" and "list_all fits_call cs" and "deletes_stored st (pf_fd st) cs"
  shows "\<exists>rs s recs. rhf_run st (pf_fd st) cs = Returns (rs, s)
           \<and> map fst rs = replicate (length cs) RHF_OK
           \<and> full_scan (Suc (length recs)) s (pf_fd st) scan0 recBuf recLen recRID
               = Some (Returns (recs, RHF_EOF, s))
           \<and> distinct (map fst recs) \<and> map_of recs = run_map (stored st) cs rs"
proof -
  from rhf_run_stored[OF assms] obtain rs s where
    r: "rhf_run st (pf_fd st) cs = Returns (rs, s)" "file_inv s" "pf_fd s = pf_fd st"
    "map fst rs = replicate (length cs) RHF_OK" "stored s = run_map (stored st) cs rs"
    by blast
  from full_scan_stored[OF r(2), of "Suc (length (recs_from s 0))" scan0 recBuf recLen recRID]
  have "full_scan (Suc (length (recs_from s 0))) s (pf_fd st) scan0 recBuf recLen recRID
      = Some (Returns (recs_from s 0, RHF_EOF, s))"
    by (simp add: r(3))
  with r distinct_recs_from[of s 0] map_of_recs_from[of s] show ?thesis by metis
qed

text \<open>The run \<open>example_run\<close> on the empty file is such a run.\<close>

lemma example_run_fits: "list_all fits_call example_run"
  by (simp add: example_run_def)

lemma example_run_deletes_stored: "deletes_stored empty_file (pf_fd empty_file) example_run"
  by (simp add: example_run_def rhf_eval stored_def live_def)

theorem full_scan_after_run_example:
  "\<exists>rs s recs. rhf_run empty_file (pf_fd empty_file) example_run = Returns (rs, s)
     \<and> map fst rs = replicate (length example_run) RHF_OK
     \<and> full_scan (Suc (length recs)) s (pf_fd empty_file) new_scan (\<lambda>_. 0) 0
           \<lparr>pageNum = 0, slotNum = 0\<rparr>
           = Some (Returns (recs, RHF_EOF, s))
     \<and> distinct (map fst recs)
     \<and> map_of recs = run_map (stored empty_file) example_run rs"
  by (rule full_scan_after_run[OF file_inv_empty_file example_run_fits example_run_deletes_stored])

section \<open>Runs in which the code leaves the specification\<close>

lemma rd32_memcpy_inside:
  "off \<le> off' \<Longrightarrow> off' + 4 \<le> off + n \<Longrightarrow>
   rd32 (memcpy_to_page pg off src n) off'
     = to_int32 (uint (src ! (off' - off)) + 256 * uint (src ! (off' + 1 - off))
         + 65536 * uint (src ! (off' + 2 - off)) + 16777216 * uint (src ! (off' + 3 - off)))"
  by (simp add: rd32_def memcpy_to_page_def)

lemma get_page_dirty_update: "get_page (st\<lparr>pf_dirty := f\<rparr>) p = get_page st p"
  by (simp add: get_page_def)

text \<open>
  C1.  Two one-byte records are inserted into an empty file and get the RIDs (0,0) and
  (0,1); both are deleted, (0,0) first, and every call returns \<^verbatim>\<open>RHF_OK\<close>.  The delete of
  (0,1) finds slot 0 on the free-slot chain and stores this link, 0, in the slot's
  \<open>recordOffset\<close>.  \<^verbatim>\<open>RHF_GetRecord\<close> tests \<open>recordOffset = -1\<close>: it reports the record
  (0,0) as deleted, but for (0,1) it goes on to copy \<open>recordLength = -1\<close> bytes, which is
  no return of \<^verbatim>\<open>RHF_NORECORD\<close> but undefined behaviour.
\<close>

theorem get_of_deleted_record_with_chained_slot:
  "returns_of [Insert [1] 1, Insert [2] 1,
               Delete \<lparr>pageNum = 0, slotNum = 0\<rparr>, Delete \<lparr>pageNum = 0, slotNum = 1\<rparr>]
     = Some [(RHF_OK, 0, 0), (RHF_OK, 0, 1), (RHF_OK, 0, 0), (RHF_OK, 0, 1)]
   \<and> recordOffset (get_page two_deleted 0) 0 = - 1
   \<and> recordLength (get_page two_deleted 0) 0 = - 1
   \<and> recordOffset (get_page two_deleted 0) 1 = 0
   \<and> recordLength (get_page two_deleted 0) 1 = - 1
   \<and> (\<exists>s. RHF_GetRecord two_deleted 0 \<lparr>pageNum = 0, slotNum = 0\<rparr> recordBuf len
              = Returns (RHF_NORECORD, recordBuf, len, s))
   \<and> RHF_GetRecord two_deleted 0 \<lparr>pageNum = 0, slotNum = 1\<rparr> recordBuf len = Fault"
  by (simp add: two_deleted_def rhf_eval)

text \<open>
  C2.  In the same file, a second \<^verbatim>\<open>RHF_DeleteRecord\<close> of the RID (0,1) does not report
  \<^verbatim>\<open>RHF_NORECORD\<close>: the slot's \<open>recordOffset\<close> is 0, not -1, so the call returns \<^verbatim>\<open>RHF_OK\<close>
  and rewrites the chain.  The slot now links to itself and slot 0 is no longer on the
  chain.
\<close>

theorem second_delete_of_chained_slot:
  "nextFreeSlot (get_page two_deleted 0) = 1
   \<and> recordOffset (get_page two_deleted 0) 1 = 0
   \<and> (\<exists>s. RHF_DeleteRecord two_deleted 0 \<lparr>pageNum = 0, slotNum = 1\<rparr> = Returns (RHF_OK, s)
          \<and> nextFreeSlot (get_page s 0) = 1
          \<and> recordOffset (get_page s 0) 1 = 1
          \<and> pf_dirty s 0)"
  by (simp add: two_deleted_def rhf_eval)


lemma memcpy_from_page_apply:
  "memcpy_from_page dst pg off n i = (if i < n then pg (off + i) else dst i)"
  by (simp add: memcpy_from_page_def)

lemmas byte_eval = memcpy_from_page_apply memcpy_to_page_apply wr32_other_byte

text \<open>
  C3.  Two runs in which \<^verbatim>\<open>RHF_GetRecord\<close> does not return what \<^verbatim>\<open>RHF_InsertRecord\<close> stored
  under the RID.  In the first, a record of 4080 bytes is inserted into an empty file:
  \<^verbatim>\<open>rhf_GetPageWithSpace\<close> allocates a page without testing that the record fits, the
  record is copied to offset 16 and so over the slot's \<open>recordLength\<close> at offset 16; the
  insert returns \<^verbatim>\<open>RHF_OK\<close> and the RID (0,0), and \<^verbatim>\<open>RHF_GetRecord\<close> of this RID returns
  the length 5 that the record's first four bytes spell.  In the second, after the delete
  of (0,1) has been repeated (and returned \<^verbatim>\<open>RHF_OK\<close>), the one-byte records 3 and 4 are
  inserted; both inserts return the RID (0,1), and \<^verbatim>\<open>RHF_GetRecord\<close> of (0,1) returns the
  byte 4, not the byte 3 stored under this RID by the insert before.
\<close>

theorem get_after_insert_returns_other_bytes:
  "returns_of [Insert record_4080 4080] = Some [(RHF_OK, 0, 0)]
   \<and> length record_4080 = 4080
   \<and> (\<exists>b s. RHF_GetRecord (file_after [Insert record_4080 4080]) 0 \<lparr>pageNum = 0, slotNum = 0\<rparr>
                 (\<lambda>_. 0) 0 = Returns (RHF_OK, b, 5, s))
   \<and> returns_of reused_twice
        = Some [(RHF_OK, 0, 0), (RHF_OK, 0, 1), (RHF_OK, 0, 0), (RHF_OK, 0, 1), (RHF_OK, 0, 1),
                (RHF_OK, 0, 1), (RHF_OK, 0, 1)]
   \<and> (\<exists>b s. RHF_GetRecord (file_after reused_twice) 0 \<lparr>pageNum = 0, slotNum = 1\<rparr> (\<lambda>_. 0) 0
                = Returns (RHF_OK, b, 1, s) \<and> b 0 = 4)"
proof -
  have a: "returns_of [Insert record_4080 4080] = Some [(RHF_OK, 0, 0)]"
    by (simp add: record_4080_def rhf_eval)
  have b: "length record_4080 = 4080" by (simp add: record_4080_def)
  have c: "\<exists>b s. RHF_GetRecord (file_after [Insert record_4080 4080]) 0 \<lparr>pageNum = 0, slotNum = 0\<rparr>
                 (\<lambda>_. 0) 0 = Returns (RHF_OK, b, 5, s)"
    by (simp add: record_4080_def rhf_eval rd32_memcpy_inside)
  have d: "returns_of reused_twice
        = Some [(RHF_OK, 0, 0), (RHF_OK, 0, 1), (RHF_OK, 0, 0), (RHF_OK, 0, 1), (RHF_OK, 0, 1),
                (RHF_OK, 0, 1), (RHF_OK, 0, 1)]"
    by (simp add: reused_twice_def rhf_eval)
  have e: "\<exists>b s. RHF_GetRecord (file_after reused_twice) 0 \<lparr>pageNum = 0, slotNum = 1\<rparr> (\<lambda>_. 0) 0
                = Returns (RHF_OK, b, 1, s) \<and> b 0 = 4"
    by (simp add: reused_twice_def rhf_eval byte_eval)
  from a b c d e show ?thesis by blast
qed


text \<open>
  C4.  One record of 4080 bytes is inserted into an empty file; the insert returns
  \<^verbatim>\<open>RHF_OK\<close> and the RID (0,0).  The record's first four bytes, all 255, lie over the
  slot's \<open>recordLength\<close>, which so reads -1, and the scan takes the slot for a deleted
  one: the first \<^verbatim>\<open>RHF_GetNextRecord\<close> of a fresh scan returns \<^verbatim>\<open>RHF_EOF\<close>.  With the record
  of C3, whose first bytes spell 5, the scan returns a record of 5 bytes.
\<close>

theorem scan_after_insert_of_4080_bytes:
  "returns_of [Insert record_ff 4080] = Some [(RHF_OK, 0, 0)]
   \<and> length record_ff = 4080
   \<and> recordLength (get_page (file_after [Insert record_ff 4080]) 0) 0 = - 1
   \<and> (\<exists>sc b l r s. RHF_GetNextRecord (file_after [Insert record_ff 4080]) new_scan (\<lambda>_. 0) 0
                       \<lparr>pageNum = 0, slotNum = 0\<rparr> = Returns (RHF_EOF, sc, b, l, r, s))
   \<and> (\<exists>sc b r s. RHF_GetNextRecord (file_after [Insert record_4080 4080]) new_scan (\<lambda>_. 0) 0
                       \<lparr>pageNum = 0, slotNum = 0\<rparr> = Returns (RHF_OK, sc, b, 5, r, s))"
proof -
  have a: "returns_of [Insert record_ff 4080] = Some [(RHF_OK, 0, 0)]"
    by (simp add: record_ff_def rhf_eval)
  have b: "length record_ff = 4080" by (simp add: record_ff_def)
  have c: "recordLength (get_page (file_after [Insert record_ff 4080]) 0) 0 = - 1"
    by (simp add: record_ff_def rhf_eval rd32_memcpy_inside)
  have d: "\<exists>sc b l r s. RHF_GetNextRecord (file_after [Insert record_ff 4080]) new_scan (\<lambda>_. 0) 0
                       \<lparr>pageNum = 0, slotNum = 0\<rparr> = Returns (RHF_EOF, sc, b, l, r, s)"
    by (simp add: record_ff_def new_scan_def rhf_eval scan_eval rd32_memcpy_inside)
  have e: "\<exists>sc b r s. RHF_GetNextRecord (file_after [Insert record_4080 4080]) new_scan (\<lambda>_. 0) 0
                       \<lparr>pageNum = 0, slotNum = 0\<rparr> = Returns (RHF_OK, sc, b, 5, r, s)"
    by (simp add: record_4080_def new_scan_def rhf_eval scan_eval rd32_memcpy_inside)
  from a b c d e show ?thesis by blast
qed

text \<open>
  C6.  A record of 4096 zero bytes is inserted into an empty file.  The page scan returns
  the new page 0 with \<open>numSlots = 0\<close> and \<open>nextFreeSlot = -1\<close>; the insert returns
  \<^verbatim>\<open>RHF_OK\<close> and the RID (0,0), so the slot number is the old \<open>numSlots\<close>.  But the record
  is copied to offset 0, over the header, and after the insert \<open>numSlots\<close> reads 0, not 1.
\<close>

theorem numSlots_after_insert_of_4096_bytes:
  "(\<exists>s1. rhf_GetPageWithSpace empty_file 0 4096 = Returns (Inr (0, s1))
          \<and> numSlots (get_page s1 0) = 0 \<and> nextFreeSlot (get_page s1 0) = - 1)
   \<and> returns_of [Insert (replicate 4096 0) 4096] = Some [(RHF_OK, 0, 0)]
   \<and> numSlots (get_page (file_after [Insert (replicate 4096 0) 4096]) 0) = 0"
proof -
  have a: "\<exists>s1. rhf_GetPageWithSpace empty_file 0 4096 = Returns (Inr (0, s1))
          \<and> numSlots (get_page s1 0) = 0 \<and> nextFreeSlot (get_page s1 0) = - 1"
    by (simp add: rhf_eval)
  have b: "returns_of [Insert (replicate 4096 0) 4096] = Some [(RHF_OK, 0, 0)]"
    by (simp add: rhf_eval)
  have c: "numSlots (get_page (file_after [Insert (replicate 4096 0) 4096]) 0) = 0"
    by (simp add: rhf_eval rd32_memcpy_inside)
  from a b c show ?thesis by blast
qed

lemma wr32_apply:
  "wr32 pg off v i =
     (if i = off + 3 then word_of_int (v div 16777216)
      else if i = off + 2 then word_of_int (v div 65536)
      else if i = off + 1 then word_of_int (v div 256)
      else if i = off then word_of_int v else pg i)"
  by (simp add: wr32_def)

lemma bytes_at_4: "bytes_at m off 4 = [m off, m (off + 1), m (off + 2), m (off + 3)]"
proof -
  have "[0..<4] = [0, 1, 2, 3::nat]" by code_simp
  then show ?thesis by (simp add: bytes_at_def)
qed

text \<open>
  C7.  A record of 4080 bytes, whose first four bytes spell 4080, is inserted into an
  empty file; the insert returns \<^verbatim>\<open>RHF_OK\<close> and the RID (0,0).  The record is stored at
  the offsets 16 to 4095 of page 0, so its first four bytes lie in the \<open>recordLength\<close>
  field of slot 0, at the offsets 16 to 19; the slot reads offset 16 and length 4080, and
  \<^verbatim>\<open>RHF_GetRecord\<close> returns the record as it was inserted.  \<^verbatim>\<open>RHF_DeleteRecord\<close> of (0,0)
  returns \<^verbatim>\<open>RHF_OK\<close>, and its assignment \<open>recordLength = -1\<close> has changed the first four
  bytes of the stored record from F0 0F 00 00 to FF FF FF FF: the bytes of the deleted
  record are not unchanged.
\<close>

theorem delete_rewrites_bytes_of_stored_record:
  "returns_of [Insert record_f0 4080, Delete \<lparr>pageNum = 0, slotNum = 0\<rparr>]
     = Some [(RHF_OK, 0, 0), (RHF_OK, 0, 0)]
   \<and> length record_f0 = 4080
   \<and> recordOffset (get_page (file_after [Insert record_f0 4080]) 0) 0 = 16
   \<and> recordLength (get_page (file_after [Insert record_f0 4080]) 0) 0 = 4080
   \<and> bytes_at (get_page (file_after [Insert record_f0 4080]) 0) 16 4080 = record_f0
   \<and> (\<exists>b s. RHF_GetRecord (file_after [Insert record_f0 4080]) 0 \<lparr>pageNum = 0, slotNum = 0\<rparr>
                 (\<lambda>_. 0) 0 = Returns (RHF_OK, b, 4080, s) \<and> bytes_at b 0 4080 = record_f0)
   \<and> bytes_at (get_page (file_after [Insert record_f0 4080]) 0) 16 4 = [240, 15, 0, 0]
   \<and> bytes_at (get_page (file_after [Insert record_f0 4080,
                                        Delete \<lparr>pageNum = 0, slotNum = 0\<rparr>]) 0) 16 4
        = [255, 255, 255, 255]"
proof -
  have a: "returns_of [Insert record_f0 4080, Delete \<lparr>pageNum = 0, slotNum = 0\<rparr>]
     = Some [(RHF_OK, 0, 0), (RHF_OK, 0, 0)]"
    by (simp add: record_f0_def rhf_eval rd32_memcpy_inside)
  have b: "length record_f0 = 4080" by (simp add: record_f0_def)
  have c: "recordOffset (get_page (file_after [Insert record_f0 4080]) 0) 0 = 16"
    "recordLength (get_page (file_after [Insert record_f0 4080]) 0) 0 = 4080"
    by (simp_all add: record_f0_def rhf_eval rd32_memcpy_inside)
  have pg: "get_page (file_after [Insert record_f0 4080]) 0
      = memcpy_to_page (wr32 (wr32 (wr32 (wr32 (rhf_InitPage (\<lambda>_. 0)) 0 1) 4 16) 12 16) 16 4080)
          16 record_f0 4080"
    by (simp add: record_f0_def rhf_eval)
  have d: "bytes_at (get_page (file_after [Insert record_f0 4080]) 0) 16 4080 = record_f0"
    unfolding pg using b by (simp add: bytes_at_memcpy_to_page)
  have e: "\<exists>b s. RHF_GetRecord (file_after [Insert record_f0 4080]) 0 \<lparr>pageNum = 0, slotNum = 0\<rparr>
                 (\<lambda>_. 0) 0 = Returns (RHF_OK, b, 4080, s) \<and> bytes_at b 0 4080 = record_f0"
  proof -
    have fi: "pf_fd (file_after [Insert record_f0 4080]) = 0"
      "length (pf_pages (file_after [Insert record_f0 4080])) = 1"
      "pf_pins (file_after [Insert record_f0 4080]) 0 = 0"
      "pinned_count (file_after [Insert record_f0 4080]) = 0"
      "pf_bufsize (file_after [Insert record_f0 4080]) = 40"
      "numSlots (get_page (file_after [Insert record_f0 4080]) 0) = 1"
      by (simp_all add: record_f0_def rhf_eval)
    have fx: "PF_GetThisPage (file_after [Insert record_f0 4080]) 0 0
        = Inr (fix_state (file_after [Insert record_f0 4080]) 0)"
      by (simp add: PF_GetThisPage_def pf_fix_def fix_state_def fi)
    have un: "PF_UnfixPage (fix_state (file_after [Insert record_f0 4080]) 0) 0 0 False
        = Inr (file_after [Insert record_f0 4080])"
      by (rule unfix_fix_state) (simp_all add: fi)
    have "RHF_GetRecord (file_after [Insert record_f0 4080]) 0 \<lparr>pageNum = 0, slotNum = 0\<rparr> (\<lambda>_. 0) 0
        = Returns (RHF_OK,
            memcpy_from_page (\<lambda>_. 0) (get_page (file_after [Insert record_f0 4080]) 0) 16 4080,
            4080, file_after [Insert record_f0 4080])"
      by (simp add: RHF_GetRecord_def fx get_page_fix_state fi c un slot_in_page_def in_page_def)
    moreover have "bytes_at (memcpy_from_page (\<lambda>_. 0)
          (get_page (file_after [Insert record_f0 4080]) 0) 16 4080) 0 4080 = record_f0"
      by (simp add: bytes_at_memcpy_from_page d)
    ultimately show ?thesis by blast
  qed
  have f: "bytes_at (get_page (file_after [Insert record_f0 4080]) 0) 16 4 = [240, 15, 0, 0]"
    unfolding pg by (simp add: record_f0_def bytes_at_4 byte_eval)
  have g: "bytes_at (get_page (file_after [Insert record_f0 4080,
                                        Delete \<lparr>pageNum = 0, slotNum = 0\<rparr>]) 0) 16 4
        = [255, 255, 255, 255]"
    by (simp add: record_f0_def rhf_eval bytes_at_4 rd32_memcpy_inside wr32_apply)
  show ?thesis by (intro conjI a b c d e f g)
qed

end
